theory Spec2Isabelle
  imports Main "HOL-Library.Word" "HOL-Library.Char_ord" "HOL-Library.List_Lexorder"
begin

section \<open>Embedding of generator.go\<close>

text \<open>
  A Go \<open>string\<close> is a sequence of bytes, compared bytewise and lexicographically: it is
  a \<open>char list\<close> (8-bit characters) with the orders of \<open>Char_ord\<close> and
  \<open>List_Lexorder\<close>. Go's \<open>int\<close> is \<open>int\<close> or, for lengths and loop
  counters that start at 0, \<open>nat\<close>; its 64-bit range is not modelled, as lengths
  stay far below it. \<open>int32\<close> is a 32-bit word read through \<open>sint\<close>; the
  conversion \<open>int32(i)\<close> is \<open>word_of_nat\<close>, which wraps as the conversion does.
  A panic and a returned error are both values of \<open>error\<close>.
\<close>

type_synonym int32 = "32 word"

datatype panic =
    SliceBoundsOutOfRange
  | IndexOutOfRange
  | CantFindToken
  | CantFindStartingPrefix
  | IntnInvalidArgument

datatype error =
    ReadError
  | SentenceTooShort int
  | Panic panic

subsection \<open>The library functions the package calls\<close>

text \<open>\<open>const delim = " "\<close> (line 15), and the line terminator of \<open>ReadBytes\<close>.\<close>

definition delim :: char where
  "delim = CHR 0x20"

definition newline :: char where
  "newline = CHR 0x0A"

text \<open>
  \<open>strings.Split(s, sep)\<close> for a separator of one byte: cut at every occurrence of the
  separator; \<open>n\<close> separators give \<open>n + 1\<close> pieces, the empty string gives one empty
  piece.
\<close>

function Split :: "string \<Rightarrow> char \<Rightarrow> string list" where
  "Split s sep =
     (case dropWhile (\<lambda>c. c \<noteq> sep) s of
        [] \<Rightarrow> [s]
      | _ # rest \<Rightarrow> takeWhile (\<lambda>c. c \<noteq> sep) s # Split rest sep)"
  by pat_completeness auto
termination
proof (relation "measure (\<lambda>(s, sep). length s)")
  show "wf (measure (\<lambda>(s, sep). length s))" by simp
next
  fix s :: string and sep x21 x22
  assume "dropWhile (\<lambda>c. c \<noteq> sep) s = x21 # x22"
  then have "length (x21 # x22) \<le> length s"
    by (metis length_dropWhile_le)
  then show "((x22, sep), (s, sep)) \<in> measure (\<lambda>(s, sep). length s)"
    by simp
qed

text \<open>\<open>strings.Join(elems, sep)\<close>.\<close>

fun Join :: "string list \<Rightarrow> char \<Rightarrow> string" where
  "Join [] sep = []"
| "Join [x] sep = x"
| "Join (x # y # ys) sep = x @ sep # Join (y # ys) sep"

text \<open>
  \<open>strings.TrimSpace\<close> removes the white space of \<open>unicode.IsSpace\<close> from both
  ends, first the left, then the right. On the bytes of a string that is: the six ASCII
  characters tab, line feed, vertical tab, form feed, carriage return and space, and the
  UTF-8 encodings of U+0085, U+00A0, U+1680, U+2000 to U+200A, U+2028, U+2029, U+202F,
  U+205F and U+3000. \<open>space_runes\<close> lists these byte sequences.
\<close>

definition space_runes :: "string list" where
  "space_runes =
     [[CHR 0x09], [CHR 0x0A], [CHR 0x0B], [CHR 0x0C], [CHR 0x0D], [CHR 0x20],
      [CHR 0xC2, CHR 0x85], [CHR 0xC2, CHR 0xA0],
      [CHR 0xE1, CHR 0x9A, CHR 0x80],
      [CHR 0xE2, CHR 0x80, CHR 0x80], [CHR 0xE2, CHR 0x80, CHR 0x81],
      [CHR 0xE2, CHR 0x80, CHR 0x82], [CHR 0xE2, CHR 0x80, CHR 0x83],
      [CHR 0xE2, CHR 0x80, CHR 0x84], [CHR 0xE2, CHR 0x80, CHR 0x85],
      [CHR 0xE2, CHR 0x80, CHR 0x86], [CHR 0xE2, CHR 0x80, CHR 0x87],
      [CHR 0xE2, CHR 0x80, CHR 0x88], [CHR 0xE2, CHR 0x80, CHR 0x89],
      [CHR 0xE2, CHR 0x80, CHR 0x8A],
      [CHR 0xE2, CHR 0x80, CHR 0xA8], [CHR 0xE2, CHR 0x80, CHR 0xA9],
      [CHR 0xE2, CHR 0x80, CHR 0xAF],
      [CHR 0xE2, CHR 0x81, CHR 0x9F],
      [CHR 0xE3, CHR 0x80, CHR 0x80]]"

text \<open>The width in bytes of the white-space rune a string starts with, 0 when it
  starts with none (no sequence of the list is a prefix of another).\<close>

fun space_width :: "string list \<Rightarrow> string \<Rightarrow> nat" where
  "space_width [] s = 0"
| "space_width (w # ws) s =
     (if take (length w) s = w then length w else space_width ws s)"

function trim_front :: "string list \<Rightarrow> string \<Rightarrow> string" where
  "trim_front ws s =
     (let n = space_width ws s in
      if n = 0 \<or> s = [] then s else trim_front ws (drop n s))"
  by pat_completeness auto
termination
  by (relation "measure (\<lambda>(ws, s). length s)") auto

definition TrimLeft :: "string \<Rightarrow> string" where
  "TrimLeft s = trim_front space_runes s"

text \<open>The right end reads the last rune: the same sequences, met from the back.\<close>

definition TrimRight :: "string \<Rightarrow> string" where
  "TrimRight s = rev (trim_front (map rev space_runes) (rev s))"

definition TrimSpace :: "string \<Rightarrow> string" where
  "TrimSpace s = TrimRight (TrimLeft s)"

text \<open>
  \<open>sort.Search(n, f)\<close>: binary search for the least index in \<open>[0, n)\<close> at which
  \<open>f\<close> holds, \<open>n\<close> when there is none, for an \<open>f\<close> that is false and then true;
  \<open>sort.SearchStrings(a, x)\<close> is \<open>Search(len(a), a[i] >= x)\<close>.
\<close>

function Search_loop :: "(nat \<Rightarrow> bool) \<Rightarrow> nat \<Rightarrow> nat \<Rightarrow> nat" where
  "Search_loop f i j =
     (if i < j then
        (let h = (i + j) div 2 in
         if \<not> f h then Search_loop f (h + 1) j else Search_loop f i h)
      else i)"
  by pat_completeness auto
termination
  by (relation "measure (\<lambda>(f, i, j). j - i)") auto

definition Search :: "nat \<Rightarrow> (nat \<Rightarrow> bool) \<Rightarrow> nat" where
  "Search n f = Search_loop f 0 n"

definition SearchStrings :: "string list \<Rightarrow> string \<Rightarrow> nat" where
  "SearchStrings a x = Search (length a) (\<lambda>i. a ! i \<ge> x)"

text \<open>
  \<open>rand.Intn(n)\<close> panics for \<open>n <= 0\<close> and returns a number of \<open>[0, n)\<close>
  otherwise. The process-wide generator is a sequence \<open>rng\<close> of raw draws, read at the
  position \<open>k\<close> of the call; every number of \<open>[0, n)\<close> is the result for some draw.
\<close>

type_synonym rand = "nat \<Rightarrow> nat"

definition Intn :: "rand \<Rightarrow> nat \<Rightarrow> nat \<Rightarrow> error + nat" where
  "Intn rng k n = (if n = 0 then Inl (Panic IntnInvalidArgument) else Inr (rng k mod n))"

text \<open>
  An \<open>io.Reader\<close>: the bytes it delivers, and whether the stream then ends with
  \<open>io.EOF\<close> or with a read failure. \<open>bufio.Reader.ReadBytes(delim)\<close> returns the
  bytes up to and including the first delimiter and no error, or the bytes that are left
  together with the error that ended the stream.
\<close>

record reader =
  data :: string
  failure :: bool

datatype read_err = EOF | Failure

definition buffer :: "string \<Rightarrow> reader" where
  "buffer bs = \<lparr>data = bs, failure = False\<rparr>"

definition ReadBytes :: "reader \<Rightarrow> char \<Rightarrow> string \<times> read_err option \<times> reader" where
  "ReadBytes r d =
     (case dropWhile (\<lambda>c. c \<noteq> d) (data r) of
        [] \<Rightarrow> (data r, Some (if failure r then Failure else EOF), r\<lparr>data := []\<rparr>)
      | _ # rest \<Rightarrow> (takeWhile (\<lambda>c. c \<noteq> d) (data r) @ [d], None, r\<lparr>data := rest\<rparr>))"

subsection \<open>index (lines 240 to 280)\<close>

record index =
  tokens :: "string list"

text \<open>\<open>index.Add\<close> (lines 245 to 262): \<open>append\<close>, or open a gap at \<open>i\<close> with
  \<open>copy\<close> and write the token there.\<close>

definition Add :: "index \<Rightarrow> string \<Rightarrow> index" where
  "Add idx token =
     (let i = SearchStrings (tokens idx) token in
      if i = length (tokens idx) then idx\<lparr>tokens := tokens idx @ [token]\<rparr>
      else if tokens idx ! i \<noteq> token
        then idx\<lparr>tokens := take i (tokens idx) @ token # drop i (tokens idx)\<rparr>
      else idx)"

text \<open>\<open>index.Get\<close> (lines 265 to 267): an index outside the slice panics.\<close>

definition Get :: "index \<Rightarrow> int \<Rightarrow> error + string" where
  "Get idx i =
     (if 0 \<le> i \<and> i < int (length (tokens idx)) then Inr (tokens idx ! nat i)
      else Inl (Panic IndexOutOfRange))"

text \<open>\<open>index.Find\<close> (lines 273 to 280).\<close>

definition Find :: "index \<Rightarrow> string \<Rightarrow> int32" where
  "Find idx token =
     (let i = SearchStrings (tokens idx) token in
      if i = length (tokens idx) \<or> tokens idx ! i \<noteq> token then - 1
      else word_of_nat i)"

subsection \<open>Chain (lines 33 to 75)\<close>

record Chain =
  chain :: "string \<rightharpoonup> int32 list"
  tokensIdx :: index
  sp :: "int32 list"
  startingPrefixIdx :: index
  prefixLength :: int

text \<open>Reading a Go map at a key it does not hold gives the nil slice.\<close>

definition lookup :: "(string \<rightharpoonup> int32 list) \<Rightarrow> string \<Rightarrow> int32 list" where
  "lookup m k = (case m k of None \<Rightarrow> [] | Some v \<Rightarrow> v)"

definition NewChain :: "int \<Rightarrow> Chain" where
  "NewChain l =
     \<lparr>chain = Map.empty, tokensIdx = \<lparr>tokens = []\<rparr>, sp = [],
      startingPrefixIdx = \<lparr>tokens = []\<rparr>, prefixLength = l\<rparr>"

subsection \<open>processStream (lines 216 to 233)\<close>

text \<open>
  The callback changes the chain, so it takes and returns the state \<open>'s\<close>, or panics.
  A read failure returns before the bytes read so far are processed; \<open>io.EOF\<close> is
  processed like a line and ends the loop.
\<close>

function processStream ::
  "reader \<Rightarrow> (string list \<Rightarrow> 's \<Rightarrow> error + 's) \<Rightarrow> 's \<Rightarrow> error + 's" where
  "processStream r processTokens s =
     (case ReadBytes r newline of
        (line, err, r') \<Rightarrow>
          if err \<noteq> None \<and> err \<noteq> Some EOF then Inl ReadError
          else
            (case processTokens (Split (TrimSpace line) delim) s of
               Inl e \<Rightarrow> Inl e
             | Inr s' \<Rightarrow>
                 if err = Some EOF then Inr s' else processStream r' processTokens s'))"
  by pat_completeness auto
termination
proof (relation "measure (\<lambda>(r, f, s). length (data r))")
  show "wf (measure (\<lambda>(r, f::string list \<Rightarrow> 's \<Rightarrow> error + 's, s). length (data r)))"
    by simp
next
  fix r :: reader and processTokens :: "string list \<Rightarrow> 's \<Rightarrow> error + 's"
    and s x y line err r' s'
  assume rb: "(line, y) = ReadBytes r newline" "(err, r') = y"
    and ne: "err \<noteq> Some EOF" "\<not> (err \<noteq> None \<and> err \<noteq> Some EOF)"
  from ne have "err = None" by auto
  with rb obtain c rest where "dropWhile (\<lambda>c. c \<noteq> newline) (data r) = c # rest" "data r' = rest"
    by (auto simp: ReadBytes_def split: list.splits)
  moreover have "length (dropWhile (\<lambda>c. c \<noteq> newline) (data r)) \<le> length (data r)"
    by (rule length_dropWhile_le)
  ultimately show "((r', processTokens, s'), (r, processTokens, s))
      \<in> measure (\<lambda>(r, f, s). length (data r))"
    by simp
qed

subsection \<open>The three passes of Build (lines 83 to 167)\<close>

text \<open>\<open>buildTokenIndex\<close> (lines 109 to 116).\<close>

definition processTokens :: "string list \<Rightarrow> Chain \<Rightarrow> error + Chain" where
  "processTokens toks c = Inr (c\<lparr>tokensIdx := foldl Add (tokensIdx c) toks\<rparr>)"

definition buildTokenIndex :: "Chain \<Rightarrow> reader \<Rightarrow> error + Chain" where
  "buildTokenIndex c r = processStream r processTokens c"

text \<open>\<open>buildPrefixIndex\<close> (lines 124 to 134). The slice \<open>tokens[:prefixLength]\<close>
  panics for a negative bound.\<close>

definition processStartingPrefixes :: "string list \<Rightarrow> Chain \<Rightarrow> error + Chain" where
  "processStartingPrefixes toks c =
     (if int (length toks) \<ge> prefixLength c then
        (if prefixLength c < 0 then Inl (Panic SliceBoundsOutOfRange)
         else
           (let prefix = Join (take (nat (prefixLength c)) toks) delim in
            Inr (c\<lparr>startingPrefixIdx := Add (startingPrefixIdx c) prefix\<rparr>)))
      else Inr c)"

definition buildPrefixIndex :: "Chain \<Rightarrow> reader \<Rightarrow> error + Chain" where
  "buildPrefixIndex c r = processStream r processStartingPrefixes c"

text \<open>
  \<open>buildChain\<close> (lines 140 to 167). \<open>processPhrase_body\<close> is one turn of the loop
  of lines 143 to 164; the slice \<open>tokens[i:i+prefixLength]\<close> panics when its upper
  bound is below \<open>i\<close>.
\<close>

definition processPhrase_body :: "nat \<Rightarrow> string list \<Rightarrow> Chain \<Rightarrow> error + Chain" where
  "processPhrase_body i toks c =
     (if prefixLength c < 0 then Inl (Panic SliceBoundsOutOfRange)
      else
        (let prefix = Join (take (nat (prefixLength c)) (drop i toks)) delim;
             suffix = toks ! (i + nat (prefixLength c));
             suffixI = Find (tokensIdx c) suffix
         in if suffixI = - 1 then Inl (Panic CantFindToken)
            else
              (let c1 = c\<lparr>chain := (chain c)(prefix \<mapsto> lookup (chain c) prefix @ [suffixI])\<rparr>
               in if i = 0 then
                    (let startingPrefixI = Find (startingPrefixIdx c1) prefix
                     in if startingPrefixI = - 1 then Inl (Panic CantFindStartingPrefix)
                        else Inr (c1\<lparr>sp := sp c1 @ [startingPrefixI]\<rparr>))
                  else Inr c1)))"

function processPhrase_loop :: "nat \<Rightarrow> string list \<Rightarrow> Chain \<Rightarrow> error + Chain" where
  "processPhrase_loop i toks c =
     (if int i < int (length toks) - prefixLength c then
        (case processPhrase_body i toks c of
           Inl e \<Rightarrow> Inl e
         | Inr c' \<Rightarrow> processPhrase_loop (i + 1) toks c')
      else Inr c)"
  by pat_completeness auto
termination
proof (relation "measure (\<lambda>(i, toks, c). length toks - i)")
  show "wf (measure (\<lambda>(i, toks, c::Chain). length toks - i))" by simp
next
  fix i :: nat and toks :: "string list" and c c' :: Chain
  assume guard: "int i < int (length toks) - prefixLength c"
    and body: "processPhrase_body i toks c = Inr c'"
  from body have "\<not> prefixLength c < 0"
    by (auto simp: processPhrase_body_def)
  with guard have "i < length toks" by linarith
  then show "((i + 1, toks, c'), (i, toks, c)) \<in> measure (\<lambda>(i, toks, c). length toks - i)"
    by simp
qed

definition processPhrase :: "string list \<Rightarrow> Chain \<Rightarrow> error + Chain" where
  "processPhrase toks c = processPhrase_loop 0 toks c"

definition buildChain :: "Chain \<Rightarrow> reader \<Rightarrow> error + Chain" where
  "buildChain c r = processStream r processPhrase c"

text \<open>
  \<open>Build\<close> (lines 83 to 102). Every byte the first pass reads from \<open>r\<close> is written to
  the buffers \<open>b1\<close> and \<open>b2\<close>; when the first pass returns no error it has read
  \<open>r\<close> to its end, so each buffer holds the bytes of \<open>r\<close>.
\<close>

definition Build :: "Chain \<Rightarrow> reader \<Rightarrow> error + Chain" where
  "Build c r =
     (case buildTokenIndex c r of
        Inl e \<Rightarrow> Inl e
      | Inr c1 \<Rightarrow>
          (case buildPrefixIndex c1 (buffer (data r)) of
             Inl e \<Rightarrow> Inl e
           | Inr c2 \<Rightarrow> buildChain c2 (buffer (data r))))"

subsection \<open>Generate (lines 180 to 208)\<close>

text \<open>
  \<open>Generate_loop\<close> is the loop of lines 193 to 206 with the final \<open>Join\<close>; \<open>k\<close>
  counts the calls of \<open>rand.Intn\<close>. The slice \<open>sentence[len(sentence)-prefixLength:]\<close>
  panics when its lower bound is negative or above the length.
\<close>

function Generate_loop :: "Chain \<Rightarrow> rand \<Rightarrow> nat \<Rightarrow> string list \<Rightarrow> int \<Rightarrow> error + string" where
  "Generate_loop c rng k sentence l =
     (if int (length sentence) < l then
        (if prefixLength c < 0 \<or> int (length sentence) < prefixLength c
         then Inl (Panic SliceBoundsOutOfRange)
         else
           (let prefix = drop (length sentence - nat (prefixLength c)) sentence;
                suffixesI = lookup (chain c) (Join prefix delim)
            in if length suffixesI = 0 then Inr (Join sentence delim)
               else
                 (case Intn rng k (length suffixesI) of
                    Inl e \<Rightarrow> Inl e
                  | Inr i \<Rightarrow>
                      (case Get (tokensIdx c) (sint (suffixesI ! i)) of
                         Inl e \<Rightarrow> Inl e
                       | Inr suffix \<Rightarrow> Generate_loop c rng (k + 1) (sentence @ [suffix]) l))))
      else Inr (Join sentence delim))"
  by pat_completeness auto
termination
  by (relation "measure (\<lambda>(c, rng, k, sentence, l). nat (l - int (length sentence)))") auto

definition Generate :: "Chain \<Rightarrow> rand \<Rightarrow> int \<Rightarrow> error + string" where
  "Generate c rng l =
     (case Intn rng 0 (length (sp c)) of
        Inl e \<Rightarrow> Inl e
      | Inr i \<Rightarrow>
          (case Get (startingPrefixIdx c) (sint (sp c ! i)) of
             Inl e \<Rightarrow> Inl e
           | Inr prefix \<Rightarrow>
               (let sentence = Split prefix delim in
                if int (length sentence) < prefixLength c
                then Inl (SentenceTooShort (prefixLength c))
                else Generate_loop c rng 1 sentence l)))"

subsection \<open>Tokens for large indexes\<close>

text \<open>
  \<open>digits w n\<close> writes \<open>n\<close> with \<open>w\<close> digits of base 16, the digits being the
  letters a to p, so that the order of the strings is the order of the numbers;
  \<open>numbered_tokens n\<close> are the first \<open>n\<close> numbers written with nine digits, and
  \<open>wide_index n\<close> is the index that holds them.
\<close>

fun digits :: "nat \<Rightarrow> nat \<Rightarrow> string" where
  "digits 0 n = []"
| "digits (Suc w) n = char_of (97 + (n div 16 ^ w) mod 16) # digits w n"

definition numbered_tokens :: "nat \<Rightarrow> string list" where
  "numbered_tokens n = map (digits 9) [0..<n]"

definition wide_index :: "nat \<Rightarrow> index" where
  "wide_index n = \<lparr>tokens = numbered_tokens n\<rparr>"

subsection \<open>The lines of a corpus\<close>

text \<open>
  The stream as the specification reads it: the lines are the pieces between the line
  terminators, the last one being what follows the last terminator; a line is trimmed and
  split at every space. \<open>run_lines\<close> calls the callback once per line, in order,
  and stops at a panic.
\<close>

definition tokenize :: "string \<Rightarrow> string list" where
  "tokenize line = Split (TrimSpace line) delim"

definition corpus_lines :: "string \<Rightarrow> string list list" where
  "corpus_lines bs = map tokenize (Split bs newline)"

fun run_lines :: "(string list \<Rightarrow> 's \<Rightarrow> error + 's) \<Rightarrow> string list list \<Rightarrow> 's \<Rightarrow> error + 's" where
  "run_lines f [] s = Inr s"
| "run_lines f (toks # rest) s =
     (case f toks s of Inl e \<Rightarrow> Inl e | Inr s' \<Rightarrow> run_lines f rest s')"

subsection \<open>What a corpus holds\<close>

text \<open>
  For a prefix length \<open>n\<close> and the token lists \<open>ls\<close> of the lines of a
  corpus: \<open>starting_prefixes\<close> are the joined first \<open>n\<close> tokens of the lines of
  at least \<open>n\<close> tokens, \<open>line_starts\<close> those of the lines of more than \<open>n\<close>
  tokens; \<open>windows\<close> are the sliding windows of the corpus in order, each the joined
  \<open>n\<close> tokens of a prefix with the token that follows them (\<open>windows_from i\<close>:
  those of one line from position \<open>i\<close> on), and \<open>followers p\<close> are the tokens
  that follow the prefix \<open>p\<close>, one per occurrence.
\<close>

definition starting_prefixes :: "nat \<Rightarrow> string list list \<Rightarrow> string list" where
  "starting_prefixes n ls =
     map (\<lambda>toks. Join (take n toks) delim) (filter (\<lambda>toks. n \<le> length toks) ls)"

definition line_starts :: "nat \<Rightarrow> string list list \<Rightarrow> string list" where
  "line_starts n ls =
     map (\<lambda>toks. Join (take n toks) delim) (filter (\<lambda>toks. n < length toks) ls)"

definition windows_from :: "nat \<Rightarrow> nat \<Rightarrow> string list \<Rightarrow> (string \<times> string) list" where
  "windows_from i n toks =
     map (\<lambda>j. (Join (take n (drop j toks)) delim, toks ! (j + n))) [i..<length toks - n]"

definition windows :: "nat \<Rightarrow> string list list \<Rightarrow> (string \<times> string) list" where
  "windows n ls = concat (map (windows_from 0 n) ls)"

definition followers :: "string \<Rightarrow> (string \<times> string) list \<Rightarrow> string list" where
  "followers p ws = map snd (filter (\<lambda>w. fst w = p) ws)"

subsection \<open>Example corpora\<close>

text \<open>
  \<open>shuffled_corpus n\<close> is one line of the \<open>n\<close> tokens of
  \<open>numbered_tokens n\<close>, in the order \<open>n - 2\<close>, \<open>0\<close>, \<open>n - 1\<close>,
  \<open>1\<close>, \<open>2\<close>, ... (every \<open>Add\<close> of the first pass then moves at most two
  tokens); \<open>test_corpus\<close> is the corpus of \<open>Test_BuildChain\<close>. \<open>letter\<close>
  holds of the digits of \<open>digits\<close>.
\<close>

definition shuffled_numbers :: "nat \<Rightarrow> nat list" where
  "shuffled_numbers n = [n - 2, 0, n - 1] @ [1..<n - 2]"

definition shuffled_line :: "nat \<Rightarrow> string list" where
  "shuffled_line n = map (digits 9) (shuffled_numbers n)"

definition shuffled_corpus :: "nat \<Rightarrow> string" where
  "shuffled_corpus n = Join (shuffled_line n) delim"

definition test_corpus :: string where
  "test_corpus =
     ''the quick brown fox, jumps over the lazy dog.'' @ [newline] @
     ''foo bar brown fox, hello.'' @ [newline] @
     ''foo bar zoo.''"

definition letter :: "char \<Rightarrow> bool" where
  "letter c \<longleftrightarrow> 97 \<le> (of_char c :: nat) \<and> (of_char c :: nat) < 113"

text \<open>A generator whose every draw is 0: \<open>rand.Intn\<close> then always returns 0.\<close>

definition first_draws :: rand where
  "first_draws k = 0"

subsection \<open>Readers and callbacks of the examples\<close>

text \<open>
  \<open>failing bs\<close> is a reader that delivers the bytes \<open>bs\<close> and then fails;
  \<open>record_line\<close> is a callback that appends each line it is given to its state, and
  \<open>stop_at x\<close> one that panics when it is given the line \<open>x\<close>.
\<close>

definition failing :: "string \<Rightarrow> reader" where
  "failing bs = \<lparr>data = bs, failure = True\<rparr>"

definition record_line :: "string list \<Rightarrow> string list list \<Rightarrow> error + string list list" where
  "record_line toks seen = Inr (seen @ [toks])"

definition stop_at :: "string list \<Rightarrow> string list \<Rightarrow> unit \<Rightarrow> error + unit" where
  "stop_at x toks s = (if toks = x then Inl (Panic IndexOutOfRange) else Inr s)"

subsection \<open>Chains made by NewChain and Build\<close>

text \<open>
  The chains a caller of the package can have: a new chain, and what a successful
  \<open>Build\<close> makes of such a chain, any number of times.
\<close>

inductive built :: "Chain \<Rightarrow> bool" where
  new: "built (NewChain l)"
| again: "built c \<Longrightarrow> Build c r = Inr c' \<Longrightarrow> built c'"

section \<open>Properties\<close>

subsection \<open>Binary search\<close>

declare Search_loop.simps [simp del]

lemma Search_loop_bounds:
  "i \<le> j \<Longrightarrow> i \<le> Search_loop f i j \<and> Search_loop f i j \<le> j"
proof (induction f i j rule: Search_loop.induct)
  case (1 f i j)
  show ?case
  proof (cases "i < j")
    case False
    then have "Search_loop f i j = i" by (subst Search_loop.simps) simp
    with "1.prems" show ?thesis by simp
  next
    case True
    let ?h = "(i + j) div 2"
    from True have h: "i \<le> ?h" "?h < j" by auto
    show ?thesis
    proof (cases "f ?h")
      case True
      with "1.IH"(2) [of ?h] \<open>i < j\<close> h show ?thesis
        by (simp add: Search_loop.simps [of f i j])
    next
      case False
      with "1.IH"(1) [of ?h] \<open>i < j\<close> h show ?thesis
        by (simp add: Search_loop.simps [of f i j])
    qed
  qed
qed

lemma Search_loop_least:
  assumes "i \<le> j"
    and "\<And>a b. a \<le> b \<Longrightarrow> b < n \<Longrightarrow> f a \<Longrightarrow> f b"
    and "\<And>k. k < i \<Longrightarrow> \<not> f k"
    and "\<And>k. j \<le> k \<Longrightarrow> k < n \<Longrightarrow> f k"
    and "j \<le> n"
  shows "(\<forall>k < Search_loop f i j. \<not> f k) \<and> (\<forall>k. Search_loop f i j \<le> k \<and> k < n \<longrightarrow> f k)"
  using assms
proof (induction f i j rule: Search_loop.induct)
  case (1 f i j)
  show ?case
  proof (cases "i < j")
    case False
    with "1.prems" have "i = j" by simp
    with "1.prems" show ?thesis by (simp add: Search_loop.simps [of f j j])
  next
    case True
    let ?h = "(i + j) div 2"
    from True have h: "i \<le> ?h" "?h < j" by auto
    show ?thesis
    proof (cases "f ?h")
      case True
      have "\<And>k. ?h \<le> k \<Longrightarrow> k < n \<Longrightarrow> f k"
        using True "1.prems"(2) by blast
      with "1.IH"(2) [of ?h] \<open>i < j\<close> h True "1.prems" show ?thesis
        by (simp add: Search_loop.simps [of f i j])
    next
      case False
      have "\<And>k. k < ?h + 1 \<Longrightarrow> \<not> f k"
      proof
        fix k assume "k < ?h + 1" "f k"
        then have "f ?h" using "1.prems"(2) [of k ?h] h "1.prems"(5) by simp
        with False show False ..
      qed
      with "1.IH"(1) [of ?h] \<open>i < j\<close> h False "1.prems" show ?thesis
        by (simp add: Search_loop.simps [of f i j])
    qed
  qed
qed

lemma SearchStrings_le: "SearchStrings a x \<le> length a"
  using Search_loop_bounds [of 0 "length a"] by (simp add: SearchStrings_def Search_def)

lemma SearchStrings_sorted:
  assumes "sorted_wrt (<) a"
  shows "(\<forall>k < SearchStrings a x. a ! k < x) \<and>
         (\<forall>k. SearchStrings a x \<le> k \<and> k < length a \<longrightarrow> x \<le> a ! k)"
proof -
  have mono: "\<And>i j. i \<le> j \<Longrightarrow> j < length a \<Longrightarrow> x \<le> a ! i \<Longrightarrow> x \<le> a ! j"
  proof -
    fix i j assume "i \<le> j" "j < length a" "x \<le> a ! i"
    moreover have "a ! i \<le> a ! j"
      using assms \<open>i \<le> j\<close> \<open>j < length a\<close>
      by (cases "i = j") (auto simp: sorted_wrt_iff_nth_less less_imp_le)
    ultimately show "x \<le> a ! j" by simp
  qed
  have "(\<forall>k < Search_loop (\<lambda>i. x \<le> a ! i) 0 (length a). \<not> x \<le> a ! k) \<and>
        (\<forall>k. Search_loop (\<lambda>i. x \<le> a ! i) 0 (length a) \<le> k \<and> k < length a \<longrightarrow> x \<le> a ! k)"
    by (rule Search_loop_least [where n = "length a"]) (use mono in auto)
  then show ?thesis
    by (simp add: SearchStrings_def Search_def not_le)
qed

lemma SearchStrings_nth:
  assumes "sorted_wrt (<) a" and "p < length a"
  shows "SearchStrings a (a ! p) = p"
proof -
  let ?r = "SearchStrings a (a ! p)"
  from SearchStrings_sorted [OF assms(1), of "a ! p"]
  have lo: "\<And>k. k < ?r \<Longrightarrow> a ! k < a ! p"
    and hi: "\<And>k. ?r \<le> k \<Longrightarrow> k < length a \<Longrightarrow> a ! p \<le> a ! k"
    by auto
  have "\<not> p < ?r" using lo [of p] by auto
  moreover have "\<not> ?r < p"
  proof
    assume "?r < p"
    then have "a ! ?r < a ! p"
      using assms by (simp add: sorted_wrt_iff_nth_less)
    moreover have "a ! p \<le> a ! ?r" using hi [of ?r] \<open>?r < p\<close> assms(2) by simp
    ultimately show False by simp
  qed
  ultimately show ?thesis by simp
qed

lemma Find_nth:
  "sorted_wrt (<) (tokens idx) \<Longrightarrow> p < length (tokens idx) \<Longrightarrow>
   Find idx (tokens idx ! p) = word_of_nat p"
  by (simp add: Find_def SearchStrings_nth)

lemma Find_absent: "t \<notin> set (tokens idx) \<Longrightarrow> Find idx t = - 1"
proof -
  let ?i = "SearchStrings (tokens idx) t"
  assume absent: "t \<notin> set (tokens idx)"
  have "?i = length (tokens idx) \<or> tokens idx ! ?i \<noteq> t"
  proof (rule disjCI)
    assume "\<not> tokens idx ! ?i \<noteq> t"
    then have eq: "tokens idx ! ?i = t" by simp
    show "?i = length (tokens idx)"
    proof (rule ccontr)
      assume "?i \<noteq> length (tokens idx)"
      with SearchStrings_le [of "tokens idx" t] have "?i < length (tokens idx)" by simp
      then have "tokens idx ! ?i \<in> set (tokens idx)" by (rule nth_mem)
      with eq absent show False by simp
    qed
  qed
  then show ?thesis by (auto simp: Find_def Let_def)
qed

lemma Find_found:
  "Find idx t \<noteq> - 1 \<Longrightarrow> t \<in> set (tokens idx)"
  using Find_absent by blast

lemma set_Add: "set (tokens (Add idx t)) = insert t (set (tokens idx))"
proof -
  let ?i = "SearchStrings (tokens idx) t"
  have le: "?i \<le> length (tokens idx)" by (rule SearchStrings_le)
  have "set (take ?i (tokens idx) @ t # drop ?i (tokens idx)) = insert t (set (tokens idx))"
    by (metis append_take_drop_id list.simps(15) set_append Un_insert_right)
  moreover have "?i < length (tokens idx) \<Longrightarrow> tokens idx ! ?i = t \<Longrightarrow> t \<in> set (tokens idx)"
    by (metis nth_mem)
  ultimately show ?thesis using le
    by (auto simp: Add_def Let_def)
qed

lemma sorted_Add:
  assumes "sorted_wrt (<) (tokens idx)"
  shows "sorted_wrt (<) (tokens (Add idx t))"
proof -
  let ?a = "tokens idx" let ?i = "SearchStrings (tokens idx) t"
  have le: "?i \<le> length ?a" by (rule SearchStrings_le)
  from SearchStrings_sorted [OF assms, of t]
  have lo: "\<And>k. k < ?i \<Longrightarrow> ?a ! k < t"
    and hi: "\<And>k. ?i \<le> k \<Longrightarrow> k < length ?a \<Longrightarrow> t \<le> ?a ! k"
    by auto
  have before: "\<forall>x \<in> set (take ?i ?a). x < t"
    using lo le by (auto simp: in_set_conv_nth)
  have s1: "sorted_wrt (<) (take ?i ?a)" and s2: "sorted_wrt (<) (drop ?i ?a)"
    using assms by (simp_all add: sorted_wrt_take sorted_wrt_drop)
  have cross: "\<forall>x \<in> set (take ?i ?a). \<forall>y \<in> set (drop ?i ?a). x < y"
    using assms by (metis append_take_drop_id sorted_wrt_append)
  show ?thesis
  proof (cases "?i = length ?a")
    case True
    with before assms show ?thesis
      by (simp add: Add_def Let_def sorted_wrt_append)
  next
    case False
    with le have lt: "?i < length ?a" by simp
    show ?thesis
    proof (cases "?a ! ?i = t")
      case True
      with False assms show ?thesis by (simp add: Add_def Let_def)
    next
      case ne: False
      have after: "\<forall>y \<in> set (drop ?i ?a). t < y"
      proof
        fix y assume "y \<in> set (drop ?i ?a)"
        then obtain k where k: "k < length ?a - ?i" "y = ?a ! (?i + k)"
          by (auto simp: in_set_conv_nth)
        have "t \<le> ?a ! ?i" using hi [of ?i] lt by simp
        with ne have "t < ?a ! ?i" by simp
        moreover have "?a ! ?i \<le> ?a ! (?i + k)"
          using assms k(1) by (cases "k = 0") (auto simp: sorted_wrt_iff_nth_less less_imp_le)
        ultimately show "t < y" using k(2) by simp
      qed
      from ne False have "tokens (Add idx t) = take ?i ?a @ t # drop ?i ?a"
        by (simp add: Add_def Let_def)
      with s1 s2 before after cross show ?thesis
        by (simp add: sorted_wrt_append)
    qed
  qed
qed

lemma set_foldl_Add: "set (tokens (foldl Add idx ts)) = set (tokens idx) \<union> set ts"
  by (induction ts arbitrary: idx) (auto simp: set_Add)

lemma sorted_foldl_Add:
  "sorted_wrt (<) (tokens idx) \<Longrightarrow> sorted_wrt (<) (tokens (foldl Add idx ts))"
  by (induction ts arbitrary: idx) (auto simp: sorted_Add)

subsection \<open>Large indexes\<close>

lemma digit_less:
  "a < b \<Longrightarrow> b < 16 \<Longrightarrow> (char_of (97 + a) :: char) < char_of (97 + (b::nat))"
  by (simp add: less_char_def)

lemma length_digits [simp]: "length (digits w n) = w"
  by (induction w) auto

lemma digits_mod: "digits w (n mod 16 ^ w) = digits w n"
proof (induction w arbitrary: n)
  case 0
  show ?case by simp
next
  case (Suc w)
  have "n mod (16 ^ w * 16) = 16 ^ w * (n div 16 ^ w mod 16) + n mod 16 ^ w"
    by (rule mod_mult2_eq)
  then have "(n mod (16 ^ w * 16)) div 16 ^ w = n div 16 ^ w mod 16"
    by simp
  then have a: "(n mod 16 ^ Suc w) div 16 ^ w mod 16 = n div 16 ^ w mod 16"
    by (simp add: mult.commute)
  have "digits w (n mod 16 ^ Suc w) = digits w ((n mod 16 ^ Suc w) mod 16 ^ w)"
    by (simp only: Suc.IH)
  also have "(n mod 16 ^ Suc w) mod 16 ^ w = n mod 16 ^ w"
    by (simp add: mod_mod_cancel)
  also have "digits w (n mod 16 ^ w) = digits w n" by (rule Suc.IH)
  finally show ?case using a by simp
qed

lemma digits_less:
  "m < n \<Longrightarrow> n < 16 ^ w \<Longrightarrow> digits w m < digits w n"
proof (induction w arbitrary: m n)
  case 0
  then show ?case by simp
next
  case (Suc w)
  let ?A = "16 ^ w :: nat"
  have A: "0 < ?A" by simp
  have dn: "n div ?A < 16" using Suc.prems(2) by (simp add: less_mult_imp_div_less mult.commute)
  have le: "m div ?A \<le> n div ?A" using Suc.prems(1) by (simp add: div_le_mono)
  with dn have dm: "m div ?A < 16" by simp
  show ?case
  proof (cases "m div ?A < n div ?A")
    case True
    with dn dm digit_less [of "m div ?A" "n div ?A"] show ?thesis by simp
  next
    case False
    with le have eq: "m div ?A = n div ?A" by simp
    have "m = ?A * (m div ?A) + m mod ?A" "n = ?A * (n div ?A) + n mod ?A" by simp_all
    with eq Suc.prems(1) have "m mod ?A < n mod ?A" by (metis nat_add_left_cancel_less)
    moreover have "n mod ?A < ?A" by simp
    ultimately have "digits w (m mod ?A) < digits w (n mod ?A)" by (rule Suc.IH)
    then have "digits w m < digits w n" by (simp only: digits_mod)
    with eq show ?thesis by simp
  qed
qed

lemma sorted_numbered_tokens:
  assumes "n \<le> 16 ^ 9"
  shows "sorted_wrt (<) (numbered_tokens n)"
proof -
  have "\<And>i j. i < j \<Longrightarrow> j < n \<Longrightarrow> digits 9 i < digits 9 j"
    using assms by (intro digits_less) auto
  then show ?thesis
    by (simp add: numbered_tokens_def sorted_wrt_iff_nth_less)
qed

lemma length_numbered_tokens [simp]: "length (numbered_tokens n) = n"
  by (simp add: numbered_tokens_def)

lemma nth_numbered_tokens: "p < n \<Longrightarrow> numbered_tokens n ! p = digits 9 p"
  by (simp add: numbered_tokens_def)

lemma Find_wide_index:
  assumes "n \<le> 16 ^ 9" and "p < n"
  shows "Find (wide_index n) (digits 9 p) = word_of_nat p"
proof -
  have "Find (wide_index n) (tokens (wide_index n) ! p) = word_of_nat p"
    by (rule Find_nth) (use assms in \<open>simp_all add: wide_index_def sorted_numbered_tokens\<close>)
  with assms(2) show ?thesis by (simp add: wide_index_def nth_numbered_tokens)
qed

lemma foldl_Add_numbered_tokens:
  assumes "n \<le> 16 ^ 9"
  shows "foldl Add \<lparr>tokens = []\<rparr> (numbered_tokens n) = wide_index n"
proof -
  let ?idx = "foldl Add \<lparr>tokens = []\<rparr> (numbered_tokens n)"
  have "sorted_wrt (<) (tokens ?idx)" by (rule sorted_foldl_Add) simp
  moreover have "set (tokens ?idx) = set (numbered_tokens n)" by (simp add: set_foldl_Add)
  ultimately have "tokens ?idx = numbered_tokens n"
    using sorted_numbered_tokens [OF assms] by (metis strict_sorted_equal)
  then show ?thesis by (simp add: wide_index_def)
qed

lemma sint_int32_of_nat:
  assumes "p < 2 ^ 31"
  shows "sint (word_of_nat p :: int32) = int p"
proof -
  have "sint (word_of_nat p :: int32) = sint (word_of_int (int p) :: int32)" by simp
  also have "\<dots> = signed_take_bit (LENGTH(32) - 1) (int p)" by (rule sint_sbintrunc')
  also have "\<dots> = int p"
    using assms by (simp add: signed_take_bit_int_eq_self)
  finally show ?thesis .
qed

lemma sint_Find_nth:
  assumes "sorted_wrt (<) (tokens idx)" and "p < length (tokens idx)" and "p < 2 ^ 31"
  shows "sint (Find idx (tokens idx ! p)) = int p"
  using assms by (simp add: Find_nth sint_int32_of_nat)

text \<open>
  Claim C8, amended. In a strictly sorted index, for every position \<open>p\<close> with
  \<open>0 \<le> p < length\<close> that is below \<open>2^31\<close>, \<open>Get p\<close> returns a token and
  \<open>Find\<close> of that token, read as the signed 32-bit number it is, is \<open>p\<close>.
\<close>

theorem Find_Get_roundtrip:
  assumes "sorted_wrt (<) (tokens idx)" and "0 \<le> p" and "p < int (length (tokens idx))"
    and "p < 2 ^ 31"
  shows "\<exists>t. Get idx p = Inr t \<and> sint (Find idx t) = p"
proof -
  from assms(2,3) have get: "Get idx p = Inr (tokens idx ! nat p)" by (simp add: Get_def)
  from assms(2,3,4) have "nat p < length (tokens idx)" "nat p < 2 ^ 31" by simp_all
  with assms(1) have "sint (Find idx (tokens idx ! nat p)) = int (nat p)"
    by (rule sint_Find_nth)
  with get assms(2) show ?thesis by simp
qed

text \<open>The round trip at position 2 of the index of \<open>Test_Index_Get\<close>.\<close>

theorem Find_Get_roundtrip_witness:
  "sorted_wrt (<) (tokens \<lparr>tokens = [''abc'', ''boo'', ''foo'', ''hello'']\<rparr>) \<and>
   Get \<lparr>tokens = [''abc'', ''boo'', ''foo'', ''hello'']\<rparr> 2 = Inr ''foo'' \<and>
   sint (Find \<lparr>tokens = [''abc'', ''boo'', ''foo'', ''hello'']\<rparr> ''foo'') = 2"
proof -
  let ?idx = "\<lparr>tokens = [''abc'', ''boo'', ''foo'', ''hello'']\<rparr>"
  have s: "sorted_wrt (<) (tokens ?idx)" by simp
  have "\<exists>t. Get ?idx 2 = Inr t \<and> sint (Find ?idx t) = 2"
    by (rule Find_Get_roundtrip [OF s]) simp_all
  moreover have "Get ?idx 2 = Inr ''foo''" by (simp add: Get_def)
  ultimately show ?thesis using s by simp
qed

text \<open>
  Claim C8 as stated fails at the position \<open>2^31\<close> of a strictly sorted index of
  \<open>2^31 + 1\<close> tokens: \<open>Find\<close> converts the position to \<open>int32\<close> and
  returns \<open>-2^31\<close>.
\<close>

theorem Find_Get_roundtrip_counterexample:
  "sorted_wrt (<) (tokens (wide_index (2 ^ 31 + 1))) \<and>
   length (tokens (wide_index (2 ^ 31 + 1))) = 2 ^ 31 + 1 \<and>
   Get (wide_index (2 ^ 31 + 1)) (2 ^ 31) = Inr (digits 9 (2 ^ 31)) \<and>
   sint (Find (wide_index (2 ^ 31 + 1)) (digits 9 (2 ^ 31))) = - (2 ^ 31)"
proof -
  define n :: nat where "n = 2 ^ 31 + 1"
  define p :: nat where "p = 2 ^ 31"
  have n: "n \<le> 16 ^ 9" and p: "p < n" by (simp_all add: n_def p_def)
  have "sorted_wrt (<) (tokens (wide_index n))"
    using n by (simp add: wide_index_def sorted_numbered_tokens)
  moreover have "length (tokens (wide_index n)) = n" by (simp add: wide_index_def)
  moreover have "Get (wide_index n) (int p) = Inr (digits 9 p)"
    using p by (simp add: Get_def wide_index_def nth_numbered_tokens)
  moreover have "Find (wide_index n) (digits 9 p) = word_of_nat p"
    using n p by (rule Find_wide_index)
  moreover have "sint (word_of_nat p :: int32) = - (2 ^ 31)" by (simp add: p_def)
  moreover have "int p = 2 ^ 31" by (simp add: p_def)
  ultimately show ?thesis unfolding n_def p_def by simp
qed

text \<open>
  Claim C5, amended. After any sequence of \<open>Add\<close> calls on the empty index the
  tokens are strictly sorted, without duplicates, and are the tokens added; \<open>Find\<close>
  returns \<open>-1\<close> for a token never added, and for a token added the \<open>int32\<close>
  conversion of its position \<open>p\<close>, which is \<open>p\<close> itself when \<open>p < 2^31\<close>.
\<close>

theorem Add_sorted_Find:
  assumes "idx = foldl Add \<lparr>tokens = []\<rparr> ts"
  shows "sorted_wrt (<) (tokens idx) \<and> distinct (tokens idx) \<and> set (tokens idx) = set ts \<and>
    (\<forall>t. t \<notin> set ts \<longrightarrow> Find idx t = - 1) \<and>
    (\<forall>t \<in> set ts. \<exists>p < length (tokens idx). tokens idx ! p = t \<and>
       Find idx t = word_of_nat p \<and> (p < 2 ^ 31 \<longrightarrow> sint (Find idx t) = int p))"
proof -
  have s: "sorted_wrt (<) (tokens idx)"
    unfolding assms by (rule sorted_foldl_Add) simp
  then have d: "distinct (tokens idx)" by (simp add: strict_sorted_iff)
  have set: "set (tokens idx) = set ts"
    unfolding assms by (simp add: set_foldl_Add)
  have absent: "\<forall>t. t \<notin> set ts \<longrightarrow> Find idx t = - 1"
    using set by (simp add: Find_absent)
  have found: "\<exists>p < length (tokens idx). tokens idx ! p = t \<and>
       Find idx t = word_of_nat p \<and> (p < 2 ^ 31 \<longrightarrow> sint (Find idx t) = int p)"
    if "t \<in> set ts" for t
  proof -
    from that set have "t \<in> set (tokens idx)" by simp
    then obtain p where p: "p < length (tokens idx)" "tokens idx ! p = t"
      by (auto simp: in_set_conv_nth)
    with s have "Find idx t = word_of_nat p" using Find_nth by blast
    moreover have "p < 2 ^ 31 \<longrightarrow> sint (Find idx t) = int p"
      using s p sint_Find_nth by blast
    ultimately show ?thesis using p by blast
  qed
  from s d set absent found show ?thesis by blast
qed

text \<open>The calls of \<open>Test_Index_Add\<close>, and two lookups of \<open>Test_Index_Find\<close>.\<close>

theorem Add_sorted_Find_witness:
  "tokens (foldl Add \<lparr>tokens = []\<rparr> [''foo'', ''foo'', ''hello'', ''abc'', ''boo'', ''boo''])
     = [''abc'', ''boo'', ''foo'', ''hello''] \<and>
   Find (foldl Add \<lparr>tokens = []\<rparr> [''foo'', ''foo'', ''hello'', ''abc'', ''boo'', ''boo'']) ''HELLO'' = - 1 \<and>
   sint (Find (foldl Add \<lparr>tokens = []\<rparr> [''foo'', ''foo'', ''hello'', ''abc'', ''boo'', ''boo'']) ''hello'') = 3"
proof -
  let ?ts = "[''foo'', ''foo'', ''hello'', ''abc'', ''boo'', ''boo'']"
  let ?idx = "foldl Add \<lparr>tokens = []\<rparr> ?ts"
  have toks: "tokens ?idx = [''abc'', ''boo'', ''foo'', ''hello'']" by code_simp
  from Add_sorted_Find [of ?idx ?ts]
  have absent: "\<forall>t. t \<notin> set ?ts \<longrightarrow> Find ?idx t = - 1"
    and found: "\<forall>t \<in> set ?ts. \<exists>p < length (tokens ?idx). tokens ?idx ! p = t \<and>
       Find ?idx t = word_of_nat p \<and> (p < 2 ^ 31 \<longrightarrow> sint (Find ?idx t) = int p)"
    by blast+
  from absent have a: "Find ?idx ''HELLO'' = - 1" by simp
  from found obtain p where p: "p < length (tokens ?idx)" "tokens ?idx ! p = ''hello''"
    "p < 2 ^ 31 \<longrightarrow> sint (Find ?idx ''hello'') = int p"
    by auto
  from p(1,2) have "p = 3" unfolding toks by (auto simp: less_Suc_eq numeral_eq_Suc)
  with p(3) have "sint (Find ?idx ''hello'') = 3" by simp
  with toks a show ?thesis by simp
qed

text \<open>
  Claim C5 as stated fails after \<open>2^31 + 1\<close> calls of \<open>Add\<close>: for the token at
  position \<open>2^31\<close>, which was added, \<open>Find\<close> returns \<open>-2^31\<close>, which is no
  position of the index (\<open>Get\<close> panics there).
\<close>

theorem Add_sorted_Find_counterexample:
  "digits 9 (2 ^ 31) \<in> set (numbered_tokens (2 ^ 31 + 1)) \<and>
   sint (Find (foldl Add \<lparr>tokens = []\<rparr> (numbered_tokens (2 ^ 31 + 1))) (digits 9 (2 ^ 31)))
     = - (2 ^ 31) \<and>
   Get (foldl Add \<lparr>tokens = []\<rparr> (numbered_tokens (2 ^ 31 + 1)))
     (sint (Find (foldl Add \<lparr>tokens = []\<rparr> (numbered_tokens (2 ^ 31 + 1))) (digits 9 (2 ^ 31))))
     = Inl (Panic IndexOutOfRange)"
proof -
  define n :: nat where "n = 2 ^ 31 + 1"
  define p :: nat where "p = 2 ^ 31"
  have n: "n \<le> 16 ^ 9" and p: "p < n" by (simp_all add: n_def p_def)
  have idx: "foldl Add \<lparr>tokens = []\<rparr> (numbered_tokens n) = wide_index n"
    using n by (rule foldl_Add_numbered_tokens)
  have mem: "digits 9 p \<in> set (numbered_tokens n)"
    using p by (auto simp: numbered_tokens_def)
  have "Find (wide_index n) (digits 9 p) = word_of_nat p"
    using n p by (rule Find_wide_index)
  moreover have "sint (word_of_nat p :: int32) = - (2 ^ 31)" by (simp add: p_def)
  ultimately have f: "sint (Find (wide_index n) (digits 9 p)) = - (2 ^ 31)" by simp
  then have g: "Get (wide_index n) (sint (Find (wide_index n) (digits 9 p)))
      = Inl (Panic IndexOutOfRange)"
    by (simp add: Get_def)
  have "digits 9 p \<in> set (numbered_tokens n) \<and>
    sint (Find (foldl Add \<lparr>tokens = []\<rparr> (numbered_tokens n)) (digits 9 p)) = - (2 ^ 31) \<and>
    Get (foldl Add \<lparr>tokens = []\<rparr> (numbered_tokens n))
      (sint (Find (foldl Add \<lparr>tokens = []\<rparr> (numbered_tokens n)) (digits 9 p)))
      = Inl (Panic IndexOutOfRange)"
    unfolding idx using mem f g by blast
  then show ?thesis unfolding n_def p_def .
qed

subsection \<open>Split, Join and TrimSpace\<close>

declare Split.simps [simp del] trim_front.simps [simp del] processStream.simps [simp del]

lemma dropWhile_no_sep: "sep \<notin> set s \<Longrightarrow> dropWhile (\<lambda>c. c \<noteq> sep) s = []"
  by (induction s) auto

lemma takeWhile_no_sep: "sep \<notin> set s \<Longrightarrow> takeWhile (\<lambda>c. c \<noteq> sep) s = s"
  by (induction s) auto

lemma dropWhile_at_sep:
  "sep \<notin> set t \<Longrightarrow> dropWhile (\<lambda>c. c \<noteq> sep) (t @ sep # s) = sep # s"
  by (induction t) auto

lemma takeWhile_at_sep:
  "sep \<notin> set t \<Longrightarrow> takeWhile (\<lambda>c. c \<noteq> sep) (t @ sep # s) = t"
  by (induction t) auto

lemma dropWhile_Cons_sep:
  "dropWhile (\<lambda>c. c \<noteq> sep) s = c # rest \<Longrightarrow>
   c = sep \<and> s = takeWhile (\<lambda>c. c \<noteq> sep) s @ sep # rest"
proof -
  assume a: "dropWhile (\<lambda>c. c \<noteq> sep) s = c # rest"
  have "\<not> (hd (dropWhile (\<lambda>c. c \<noteq> sep) s) \<noteq> sep)"
    by (rule hd_dropWhile) (simp add: a)
  with a have c: "c = sep" by simp
  have "s = takeWhile (\<lambda>c. c \<noteq> sep) s @ dropWhile (\<lambda>c. c \<noteq> sep) s" by simp
  with a c show ?thesis by simp
qed

lemma Split_no_sep: "sep \<notin> set s \<Longrightarrow> Split s sep = [s]"
  by (subst Split.simps) (simp add: dropWhile_no_sep)

lemma Split_append_sep:
  "sep \<notin> set t \<Longrightarrow> Split (t @ sep # s) sep = t # Split s sep"
  by (subst Split.simps) (simp add: dropWhile_at_sep takeWhile_at_sep)

lemma Split_Nil [simp]: "Split [] sep = [[]]"
  by (simp add: Split_no_sep)

lemma Split_not_Nil [simp]: "Split s sep \<noteq> []"
  by (subst Split.simps) (simp split: list.split)

lemma Split_cases:
  obtains (last) "sep \<notin> set s" "Split s sep = [s]"
  | (more) t rest where "sep \<notin> set t" "s = t @ sep # rest" "Split s sep = t # Split rest sep"
proof (cases "dropWhile (\<lambda>c. c \<noteq> sep) s")
  case Nil
  then have "sep \<notin> set s" by (auto simp: dropWhile_eq_Nil_conv)
  then show ?thesis using last Split_no_sep by blast
next
  case (Cons c rest)
  let ?t = "takeWhile (\<lambda>c. c \<noteq> sep) s"
  from dropWhile_Cons_sep [OF Cons] have s: "s = ?t @ sep # rest" by simp
  have t: "sep \<notin> set ?t" by (auto dest: set_takeWhileD)
  have "Split (?t @ sep # rest) sep = ?t # Split rest sep"
    using t by (rule Split_append_sep)
  with s have "Split s sep = ?t # Split rest sep" by simp
  with t s show ?thesis using more by blast
qed

lemma Split_induct [case_names last more]:
  assumes "\<And>s :: string. sep \<notin> set s \<Longrightarrow> P s"
    and "\<And>t rest. sep \<notin> set t \<Longrightarrow> P rest \<Longrightarrow> P (t @ sep # rest)"
  shows "P (s :: string)"
proof (induction s rule: length_induct)
  case (1 s)
  show ?case
  proof (cases rule: Split_cases [of sep s])
    case last
    then show ?thesis by (simp add: assms(1))
  next
    case (more t rest)
    then have "length rest < length s" by simp
    with 1 have "P rest" by blast
    with more assms(2) show ?thesis by simp
  qed
qed

lemma Split_no_sep_in_pieces: "t \<in> set (Split s sep) \<Longrightarrow> sep \<notin> set t"
  by (induction s arbitrary: t rule: Split_induct [where sep = sep])
    (auto simp: Split_no_sep Split_append_sep)

lemma Join_Cons: "ts \<noteq> [] \<Longrightarrow> Join (t # ts) sep = t @ sep # Join ts sep"
  by (cases ts) auto

lemma Join_Split: "Join (Split s sep) sep = s"
  by (induction s rule: Split_induct [where sep = sep])
    (auto simp: Split_no_sep Split_append_sep Join_Cons)

lemma Split_Join:
  assumes "ts \<noteq> []" and "\<forall>t \<in> set ts. sep \<notin> set t"
  shows "Split (Join ts sep) sep = ts"
  using assms
proof (induction ts sep rule: Join.induct)
  case (1 sep)
  then show ?case by simp
next
  case (2 x sep)
  then show ?case by (simp add: Split_no_sep)
next
  case (3 x y ys sep)
  then show ?case by (simp add: Split_append_sep)
qed

lemma length_Split: "length (Split s sep) = Suc (count_list s sep)"
  by (induction s rule: Split_induct [where sep = sep])
    (auto simp: Split_no_sep Split_append_sep count_list_0_iff)

lemma take_append_newline_iff:
  assumes "l \<noteq> []" and "w \<noteq> []" and "2 \<le> length w \<longrightarrow> last w \<noteq> newline"
  shows "take (length w) (l @ [newline]) = w \<longleftrightarrow> take (length w) l = w"
proof (cases "length w \<le> length l")
  case True
  then show ?thesis by simp
next
  case False
  then have len: "length l < length w" by simp
  have a: "take (length w) l \<noteq> w"
  proof
    assume "take (length w) l = w"
    then have "length (take (length w) l) = length w" by simp
    with len show False by simp
  qed
  have b: "take (length w) (l @ [newline]) \<noteq> w"
  proof
    assume eq: "take (length w) (l @ [newline]) = w"
    from len have "take (length w) (l @ [newline]) = l @ [newline]" by simp
    with eq have w: "w = l @ [newline]" by simp
    from assms(1) have "2 \<le> length (l @ [newline])" by (cases l) simp_all
    with w assms(3) show False by simp
  qed
  from a b show ?thesis by blast
qed

lemma space_width_append_newline:
  assumes "l \<noteq> []"
    and "\<forall>w \<in> set ws. w \<noteq> [] \<and> (2 \<le> length w \<longrightarrow> last w \<noteq> newline)"
  shows "space_width ws (l @ [newline]) = space_width ws l"
  using assms(2)
proof (induction ws)
  case Nil
  show ?case by simp
next
  case (Cons w ws)
  then have w: "w \<noteq> []" "2 \<le> length w \<longrightarrow> last w \<noteq> newline" by simp_all
  from Cons have IH: "space_width ws (l @ [newline]) = space_width ws l" by simp
  have iff: "take (length w) (l @ [newline]) = w \<longleftrightarrow> take (length w) l = w"
    using assms(1) w by (rule take_append_newline_iff)
  have "space_width (w # ws) (l @ [newline]) =
     (if take (length w) (l @ [newline]) = w then length w else space_width ws (l @ [newline]))"
    by (simp only: space_width.simps)
  also have "\<dots> = (if take (length w) l = w then length w else space_width ws l)"
    by (simp only: iff IH)
  also have "\<dots> = space_width (w # ws) l" by (simp only: space_width.simps)
  finally show ?case .
qed

lemma space_runes_shape_aux:
  "list_all (\<lambda>w. w \<noteq> [] \<and> (2 \<le> length w \<longrightarrow> last w \<noteq> newline)) space_runes"
  by code_simp

lemma space_runes_shape:
  "\<forall>w \<in> set space_runes. w \<noteq> [] \<and> (2 \<le> length w \<longrightarrow> last w \<noteq> newline)"
  using space_runes_shape_aux by (simp only: list_all_iff)

lemma space_width_le: "space_width ws s \<le> length s"
  by (induction ws) (auto, metis length_take min.cobounded1)

lemma TrimLeft_append_newline:
  "TrimLeft (l @ [newline]) = (if TrimLeft l = [] then [] else TrimLeft l @ [newline])"
  unfolding TrimLeft_def
proof (induction space_runes l rule: trim_front.induct)
  case (1 s)
  let ?n = "space_width space_runes s"
  show ?case
  proof (cases "s = []")
    case True
    have "space_width space_runes [newline] = 1" by code_simp
    then have "trim_front space_runes [newline] = trim_front space_runes []"
      by (subst trim_front.simps) simp
    also have "\<dots> = []" by (subst trim_front.simps) simp
    finally show ?thesis using True by (simp add: trim_front.simps [of _ "[]"])
  next
    case False
    then have w: "space_width space_runes (s @ [newline]) = ?n"
      using space_runes_shape by (rule space_width_append_newline)
    show ?thesis
    proof (cases "?n = 0")
      case True
      then have "trim_front space_runes s = s"
        by (subst trim_front.simps) simp
      moreover have "trim_front space_runes (s @ [newline]) = s @ [newline]"
        using True w by (subst trim_front.simps) simp
      ultimately show ?thesis using False by simp
    next
      case n: False
      have le: "?n \<le> length s" by (rule space_width_le)
      have a: "trim_front space_runes s = trim_front space_runes (drop ?n s)"
        using n False by (subst trim_front.simps) (simp add: Let_def)
      have "trim_front space_runes (s @ [newline]) = trim_front space_runes (drop ?n (s @ [newline]))"
        using n w by (subst trim_front.simps) (simp add: Let_def)
      also have "drop ?n (s @ [newline]) = drop ?n s @ [newline]" using le by simp
      finally show ?thesis using "1.hyps" [OF refl] n False a by simp
    qed
  qed
qed

lemma TrimRight_append_newline: "TrimRight (s @ [newline]) = TrimRight s"
proof -
  obtain ws where ws: "map rev space_runes = [CHR 0x09] # [newline] # ws"
    by (simp add: space_runes_def newline_def)
  have "space_width (map rev space_runes) (newline # rev s) = 1"
    unfolding ws by (simp add: newline_def)
  then have "trim_front (map rev space_runes) (newline # rev s) = trim_front (map rev space_runes) (rev s)"
    by (subst trim_front.simps) simp
  then show ?thesis by (simp add: TrimRight_def)
qed

lemma TrimRight_Nil [simp]: "TrimRight [] = []"
  by (simp add: TrimRight_def trim_front.simps [of _ "[]"])

lemma TrimSpace_append_newline: "TrimSpace (l @ [newline]) = TrimSpace l"
  by (simp add: TrimSpace_def TrimLeft_append_newline TrimRight_append_newline)

lemma tokenize_append_newline: "tokenize (l @ [newline]) = tokenize l"
  by (simp add: tokenize_def TrimSpace_append_newline)

lemma processStream_last:
  "newline \<notin> set (data r) \<Longrightarrow>
   processStream r f s = (if failure r then Inl ReadError else f (tokenize (data r)) s)"
  by (subst processStream.simps)
    (auto simp: ReadBytes_def dropWhile_no_sep tokenize_def split: sum.splits)

lemma processStream_more:
  "newline \<notin> set t \<Longrightarrow> data r = t @ newline # rest \<Longrightarrow>
   processStream r f s =
     (case f (tokenize t) s of Inl e \<Rightarrow> Inl e | Inr s' \<Rightarrow> processStream (r\<lparr>data := rest\<rparr>) f s')"
  by (subst processStream.simps)
    (auto simp: ReadBytes_def dropWhile_at_sep takeWhile_at_sep tokenize_def
       TrimSpace_append_newline split: sum.splits)

lemma processStream_buffer:
  "processStream (buffer bs) f s = run_lines f (corpus_lines bs) s"
proof (induction bs arbitrary: s rule: Split_induct [where sep = newline])
  case (last bs)
  then show ?case
    by (simp add: processStream_last buffer_def corpus_lines_def Split_no_sep split: sum.splits)
next
  case (more t rest)
  have b: "(buffer (t @ newline # rest))\<lparr>data := rest\<rparr> = buffer rest"
    by (simp add: buffer_def)
  have "processStream (buffer (t @ newline # rest)) f s =
     (case f (tokenize t) s of Inl e \<Rightarrow> Inl e
      | Inr s' \<Rightarrow> processStream ((buffer (t @ newline # rest))\<lparr>data := rest\<rparr>) f s')"
    using more(1) by (rule processStream_more) (simp add: buffer_def)
  then have "processStream (buffer (t @ newline # rest)) f s =
     (case f (tokenize t) s of Inl e \<Rightarrow> Inl e | Inr s' \<Rightarrow> processStream (buffer rest) f s')"
    by (simp only: b)
  with more show ?case
    by (simp add: corpus_lines_def Split_append_sep split: sum.splits)
qed

lemma Split_append_final_sep: "Split (s @ [sep]) sep = Split s sep @ [[]]"
proof (induction s rule: Split_induct [where sep = sep])
  case (last s)
  then have "Split (s @ sep # []) sep = s # Split [] sep" by (rule Split_append_sep)
  with last show ?case by (simp add: Split_no_sep)
next
  case (more t rest)
  have "Split (t @ sep # (rest @ [sep])) sep = t # Split (rest @ [sep]) sep"
    using more(1) by (rule Split_append_sep)
  with more show ?case by (simp add: Split_append_sep)
qed

lemma no_sep_in_Split: "sep \<notin> set (concat (Split s sep))"
  using Split_no_sep_in_pieces by fastforce

lemma tokenize_Nil: "tokenize [] = [[]]"
  by (simp add: tokenize_def TrimSpace_def TrimLeft_def trim_front.simps [of _ "[]"])

subsection \<open>processStream\<close>

lemma processStream_failure:
  "failure r \<Longrightarrow> data r = bs \<Longrightarrow> \<exists>e. processStream r f s = Inl e"
proof (induction bs arbitrary: r s rule: Split_induct [where sep = newline])
  case (last bs)
  then show ?case by (simp add: processStream_last)
next
  case (more t rest)
  have "\<exists>e. processStream (r\<lparr>data := rest\<rparr>) f s' = Inl e" for s'
    using more.prems(1) by (intro more.IH) simp_all
  moreover have "processStream r f s =
     (case f (tokenize t) s of Inl e \<Rightarrow> Inl e | Inr s' \<Rightarrow> processStream (r\<lparr>data := rest\<rparr>) f s')"
    using more.hyps more.prems(2) by (rule processStream_more)
  ultimately show ?case by (auto split: sum.splits)
qed

lemma space_width_in_set:
  "space_width ws s \<noteq> 0 \<Longrightarrow> take (space_width ws s) s \<in> set ws"
  by (induction ws) (auto split: if_splits)

lemma space_width_0_iff:
  assumes "[] \<notin> set ws"
  shows "space_width ws s = 0 \<longleftrightarrow> \<not> (\<exists>w \<in> set ws. take (length w) s = w)"
  using assms by (induction ws) auto

lemma trim_front_removed:
  "\<exists>us. set us \<subseteq> set ws \<and> s = concat us @ trim_front ws s"
proof (induction ws s rule: trim_front.induct)
  case (1 ws s)
  let ?n = "space_width ws s"
  show ?case
  proof (cases "?n = 0 \<or> s = []")
    case True
    then have "trim_front ws s = s" by (subst trim_front.simps) auto
    then have "set [] \<subseteq> set ws \<and> s = concat [] @ trim_front ws s" by simp
    then show ?thesis by blast
  next
    case False
    then have t: "trim_front ws s = trim_front ws (drop ?n s)"
      by (subst trim_front.simps) (simp add: Let_def)
    from "1.IH" [OF refl False] obtain us where
      us: "set us \<subseteq> set ws" "drop ?n s = concat us @ trim_front ws (drop ?n s)" by blast
    from False have w: "take ?n s \<in> set ws" by (intro space_width_in_set) simp
    have "s = take ?n s @ drop ?n s" by simp
    also have "\<dots> = concat (take ?n s # us) @ trim_front ws s"
      using us(2) t by simp
    finally have "s = concat (take ?n s # us) @ trim_front ws s" .
    moreover have "set (take ?n s # us) \<subseteq> set ws" using us(1) w by simp
    ultimately show ?thesis by blast
  qed
qed

lemma trim_front_done:
  "space_width ws (trim_front ws s) = 0"
proof (induction ws s rule: trim_front.induct)
  case (1 ws s)
  let ?n = "space_width ws s"
  show ?case
  proof (cases "?n = 0 \<or> s = []")
    case True
    then have t: "trim_front ws s = s" by (subst trim_front.simps) auto
    from True show ?thesis
    proof
      assume "?n = 0" with t show ?thesis by simp
    next
      assume "s = []"
      moreover have "space_width ws [] = 0" using space_width_le [of ws "[]"] by simp
      ultimately show ?thesis using t by simp
    qed
  next
    case False
    then have "trim_front ws s = trim_front ws (drop ?n s)"
      by (subst trim_front.simps) (simp add: Let_def)
    with "1.IH" [OF refl False] show ?thesis by simp
  qed
qed

lemma space_runes_nonempty: "[] \<notin> set space_runes"
  using space_runes_shape by blast

lemma TrimLeft_removed:
  "\<exists>ws. set ws \<subseteq> set space_runes \<and> s = concat ws @ TrimLeft s"
  unfolding TrimLeft_def by (rule trim_front_removed)

lemma TrimRight_removed:
  "\<exists>vs. set vs \<subseteq> set space_runes \<and> s = TrimRight s @ concat vs"
proof -
  from trim_front_removed [of "map rev space_runes" "rev s"] obtain us where
    us: "set us \<subseteq> set (map rev space_runes)"
      "rev s = concat us @ trim_front (map rev space_runes) (rev s)" by blast
  from us(2) have "rev (rev s) = rev (concat us @ trim_front (map rev space_runes) (rev s))"
    by simp
  then have "s = TrimRight s @ concat (map rev (rev us))"
    by (simp add: TrimRight_def rev_concat)
  moreover have "set (map rev (rev us)) \<subseteq> set space_runes"
    using us(1) by (auto simp: image_iff) 
  ultimately show ?thesis by blast
qed

lemma TrimSpace_removed:
  "\<exists>ws vs. set ws \<subseteq> set space_runes \<and> set vs \<subseteq> set space_runes \<and>
     s = concat ws @ TrimSpace s @ concat vs"
proof -
  from TrimLeft_removed [of s] obtain ws where
    ws: "set ws \<subseteq> set space_runes" "s = concat ws @ TrimLeft s" by blast
  from TrimRight_removed [of "TrimLeft s"] obtain vs where
    vs: "set vs \<subseteq> set space_runes" "TrimLeft s = TrimSpace s @ concat vs"
    by (auto simp: TrimSpace_def)
  from ws(2) vs(2) have "s = concat ws @ TrimSpace s @ concat vs" by simp
  with ws(1) vs(1) show ?thesis by blast
qed

lemma TrimSpace_no_space_right:
  "\<not> (\<exists>w \<in> set space_runes. take (length w) (rev (TrimSpace s)) = rev w)"
proof -
  have "[] \<notin> set (map rev space_runes)" using space_runes_nonempty by auto
  moreover have "space_width (map rev space_runes) (rev (TrimSpace s)) = 0"
    by (simp add: TrimSpace_def TrimRight_def trim_front_done)
  ultimately have "\<not> (\<exists>w \<in> set (map rev space_runes). take (length w) (rev (TrimSpace s)) = w)"
    using space_width_0_iff [of "map rev space_runes" "rev (TrimSpace s)"] by blast
  then show ?thesis by auto
qed

lemma TrimSpace_no_space_left:
  "\<not> (\<exists>w \<in> set space_runes. take (length w) (TrimSpace s) = w)"
proof
  assume "\<exists>w \<in> set space_runes. take (length w) (TrimSpace s) = w"
  then obtain w where w: "w \<in> set space_runes" "take (length w) (TrimSpace s) = w" by blast
  from TrimRight_removed [of "TrimLeft s"] obtain vs where
    vs: "TrimLeft s = TrimSpace s @ concat vs" by (auto simp: TrimSpace_def)
  from w(2) have "length w \<le> length (TrimSpace s)"
    by (metis length_take min.cobounded1)
  with w(2) vs have "take (length w) (TrimLeft s) = w" by simp
  with w(1) have "\<exists>w \<in> set space_runes. take (length w) (TrimLeft s) = w" by blast
  moreover have "space_width space_runes (TrimLeft s) = 0"
    by (simp add: TrimLeft_def trim_front_done)
  ultimately show False
    using space_runes_nonempty space_width_0_iff [of space_runes "TrimLeft s"] by blast
qed

lemma processStream_failing:
  "failure r \<Longrightarrow> data r = bs \<Longrightarrow>
   processStream r f s =
     (case run_lines f (butlast (corpus_lines bs)) s of
        Inl e \<Rightarrow> Inl e
      | Inr s' \<Rightarrow> Inl ReadError)"
proof (induction bs arbitrary: r s rule: Split_induct [where sep = newline])
  case (last bs)
  then show ?case
    by (simp add: processStream_last corpus_lines_def Split_no_sep)
next
  case (more t rest)
  have step: "processStream r f s =
     (case f (tokenize t) s of Inl e \<Rightarrow> Inl e | Inr s' \<Rightarrow> processStream (r\<lparr>data := rest\<rparr>) f s')"
    using more.hyps more.prems(2) by (rule processStream_more)
  have IH: "processStream (r\<lparr>data := rest\<rparr>) f s' =
     (case run_lines f (butlast (corpus_lines rest)) s' of
        Inl e \<Rightarrow> Inl e
      | Inr s'' \<Rightarrow> Inl ReadError)" for s'
    using more.prems(1) by (intro more.IH) simp_all
  have "corpus_lines (t @ newline # rest) = tokenize t # corpus_lines rest"
    using more.hyps by (simp add: corpus_lines_def Split_append_sep)
  moreover have "corpus_lines rest \<noteq> []" by (simp add: corpus_lines_def)
  ultimately have "butlast (corpus_lines (t @ newline # rest)) = tokenize t # butlast (corpus_lines rest)"
    by simp
  with step IH show ?case by (simp split: sum.splits)
qed

lemma processStream_reader:
  "processStream r f s =
     (if failure r
      then (case run_lines f (butlast (corpus_lines (data r))) s of
              Inl e \<Rightarrow> Inl e
            | Inr s' \<Rightarrow> Inl ReadError)
      else run_lines f (corpus_lines (data r)) s)"
proof (cases "failure r")
  case True
  then show ?thesis using processStream_failing [of r "data r" f s] by simp
next
  case False
  then have "r = buffer (data r)" by (simp add: buffer_def)
  then have "processStream r f s = processStream (buffer (data r)) f s" by simp
  with False show ?thesis by (simp only: processStream_buffer if_False)
qed

lemma run_lines_record_line: "run_lines record_line ls seen = Inr (seen @ ls)"
  by (induction ls arbitrary: seen) (auto simp: record_line_def)

text \<open>
  Claim C7, amended. On a stream that ends with \<open>io.EOF\<close>, \<open>processStream\<close>
  calls the callback once per line, in order, the line after the last terminator
  included (the second conjunct records the calls); on a stream that ends with a read
  failure it calls the callback once per terminated line and then returns the error,
  without a call for the bytes after the last terminator. A line is trimmed: what is
  removed at each end is a sequence of white-space runes, and what is left neither begins
  nor ends with one (the example trims U+00A0, tab and space on the left, space, U+3000,
  carriage return and line feed on the right). The trimmed line is split at every single
  space: the pieces joined by
  the space give it back, no piece holds a space, and there is one more piece than spaces,
  so two spaces in a row give an empty token. A stream that ends with a terminator has an
  empty last line, and the empty line gives one empty token.
\<close>

theorem processStream_lines:
  "processStream r f s =
     (if failure r
      then (case run_lines f (butlast (corpus_lines (data r))) s of
              Inl e \<Rightarrow> Inl e
            | Inr s' \<Rightarrow> Inl ReadError)
      else run_lines f (corpus_lines (data r)) s) \<and>
   processStream (buffer bs) record_line [] = Inr (corpus_lines bs) \<and>
   corpus_lines bs = map (\<lambda>line. Split (TrimSpace line) delim) (Split bs newline) \<and>
   length (corpus_lines bs) = Suc (count_list bs newline) \<and>
   Join (Split bs newline) newline = bs \<and>
   newline \<notin> set (concat (Split bs newline)) \<and>
   Split (bs @ [newline]) newline = Split bs newline @ [[]] \<and>
   (\<exists>ws vs. set ws \<subseteq> set space_runes \<and> set vs \<subseteq> set space_runes \<and>
      line = concat ws @ TrimSpace line @ concat vs) \<and>
   \<not> (\<exists>w \<in> set space_runes. take (length w) (TrimSpace line) = w) \<and>
   \<not> (\<exists>w \<in> set space_runes. take (length w) (rev (TrimSpace line)) = rev w) \<and>
   TrimSpace ([CHR 0xC2, CHR 0xA0, CHR 0x09, CHR 0x20] @ ''a  b'' @
     [CHR 0x20, CHR 0xE3, CHR 0x80, CHR 0x80, CHR 0x0D, CHR 0x0A]) = ''a  b'' \<and>
   Join (Split line delim) delim = line \<and>
   delim \<notin> set (concat (Split line delim)) \<and>
   length (Split line delim) = Suc (count_list line delim) \<and>
   Split ''a  b'' delim = [''a'', [], ''b''] \<and>
   Split (TrimSpace []) delim = [[]]"
proof -
  have "processStream (buffer bs) record_line [] = Inr (corpus_lines bs)"
    by (simp add: processStream_buffer run_lines_record_line)
  moreover have "corpus_lines bs = map (\<lambda>line. Split (TrimSpace line) delim) (Split bs newline)"
    by (simp add: corpus_lines_def tokenize_def [abs_def])
  moreover have "length (corpus_lines bs) = Suc (count_list bs newline)"
    by (simp add: corpus_lines_def length_Split)
  moreover have "Split ''a  b'' delim = [''a'', [], ''b'']" by code_simp
  moreover have "Split (TrimSpace []) delim = [[]]"
    using tokenize_Nil by (simp add: tokenize_def)
  moreover have "TrimSpace ([CHR 0xC2, CHR 0xA0, CHR 0x09, CHR 0x20] @ ''a  b'' @
     [CHR 0x20, CHR 0xE3, CHR 0x80, CHR 0x80, CHR 0x0D, CHR 0x0A]) = ''a  b''"
    by code_simp
  moreover note processStream_reader [of r f s] TrimSpace_removed [of line]
    TrimSpace_no_space_left [of line] TrimSpace_no_space_right [of line]
    Join_Split [of bs newline] Join_Split [of line delim]
    no_sep_in_Split [of newline bs] no_sep_in_Split [of delim line]
    length_Split [of line delim] Split_append_final_sep [of bs newline]
  ultimately show ?thesis by blast
qed

text \<open>
  Claim C7 as stated fails on a stream that ends with a read failure: of the two lines
  \<open>a b\<close> and \<open>c d\<close>, the second without a terminator, \<open>processStream\<close>
  returns the read error and never calls the callback for \<open>c d\<close> (a callback that
  panics at that line is not reached), while on the same bytes ended by \<open>io.EOF\<close>
  both lines are passed.
\<close>

theorem processStream_lines_counterexample:
  "corpus_lines (''a b'' @ [newline] @ ''c d'') = [[''a'', ''b''], [''c'', ''d'']] \<and>
   processStream (buffer (''a b'' @ [newline] @ ''c d'')) record_line [] =
     Inr [[''a'', ''b''], [''c'', ''d'']] \<and>
   processStream (failing (''a b'' @ [newline] @ ''c d'')) record_line [] = Inl ReadError \<and>
   processStream (buffer (''a b'' @ [newline] @ ''c d'')) (stop_at [''c'', ''d'']) () =
     Inl (Panic IndexOutOfRange) \<and>
   processStream (failing (''a b'' @ [newline] @ ''c d'')) (stop_at [''c'', ''d'']) () =
     Inl ReadError"
  by code_simp

subsection \<open>Generate without a starting prefix\<close>

text \<open>
  Claim C1 at the corpus of the two lines \<open>hello\<close> and \<open>world\<close> with prefix
  length 2: \<open>Build\<close> succeeds and leaves \<open>sp\<close> empty, and \<open>Generate\<close>
  panics in \<open>rand.Intn(0)\<close> for every length and every state of the generator;
  it returns no error.
\<close>

theorem Generate_without_starting_prefix:
  "(case Build (NewChain 2) (buffer (''hello'' @ [newline] @ ''world'')) of
      Inl e \<Rightarrow> False
    | Inr c \<Rightarrow> sp c = [] \<and> Generate c rng l = Inl (Panic IntnInvalidArgument))"
proof -
  have "\<not> isl (Build (NewChain 2) (buffer (''hello'' @ [newline] @ ''world'')))"
    and "sp (projr (Build (NewChain 2) (buffer (''hello'' @ [newline] @ ''world'')))) = []"
    by code_simp+
  moreover have "Generate c rng l = Inl (Panic IntnInvalidArgument)" if "sp c = []" for c
    using that by (simp add: Generate_def Intn_def)
  ultimately show ?thesis by (auto split: sum.splits)
qed

text \<open>
  Claim C2 at the corpus of the one line \<open>foo bar\<close> with prefix length 2: the line
  has two tokens and its starting prefix is in \<open>startingPrefixIdx\<close>, but \<open>sp\<close>
  has no entry for it.
\<close>

theorem Build_line_of_prefixLength_tokens:
  "corpus_lines ''foo bar'' = [[''foo'', ''bar'']] \<and>
   (case Build (NewChain 2) (buffer ''foo bar'') of
      Inl e \<Rightarrow> False
    | Inr c \<Rightarrow> tokens (startingPrefixIdx c) = [''foo bar''] \<and> sp c = [])"
  by code_simp

subsection \<open>The passes of Build\<close>

declare processPhrase_loop.simps [simp del]

lemma run_lines_append:
  "run_lines f (xs @ ys) s =
     (case run_lines f xs s of Inl e \<Rightarrow> Inl e | Inr s' \<Rightarrow> run_lines f ys s')"
  by (induction xs arbitrary: s) (auto split: sum.splits)

lemma run_lines_processTokens:
  "run_lines processTokens ls c = Inr (c\<lparr>tokensIdx := foldl Add (tokensIdx c) (concat ls)\<rparr>)"
  by (induction ls arbitrary: c) (simp_all add: processTokens_def)

lemma run_lines_processStartingPrefixes:
  "0 \<le> prefixLength c \<Longrightarrow>
   run_lines processStartingPrefixes ls c =
     Inr (c\<lparr>startingPrefixIdx :=
       foldl Add (startingPrefixIdx c) (starting_prefixes (nat (prefixLength c)) ls)\<rparr>)"
proof (induction ls arbitrary: c)
  case Nil
  show ?case by (simp add: starting_prefixes_def)
next
  case (Cons toks ls)
  have iff: "prefixLength c \<le> int (length toks) \<longleftrightarrow> nat (prefixLength c) \<le> length toks"
    using Cons.prems by linarith
  show ?case
  proof (cases "nat (prefixLength c) \<le> length toks")
    case True
    with Cons.prems iff have "processStartingPrefixes toks c =
        Inr (c\<lparr>startingPrefixIdx :=
          Add (startingPrefixIdx c) (Join (take (nat (prefixLength c)) toks) delim)\<rparr>)"
      by (simp add: processStartingPrefixes_def)
    with Cons True show ?thesis by (simp add: starting_prefixes_def)
  next
    case False
    with iff have "processStartingPrefixes toks c = Inr c"
      by (simp add: processStartingPrefixes_def)
    with Cons False show ?thesis by (simp add: starting_prefixes_def)
  qed
qed

lemma run_lines_processStartingPrefixes_negative:
  "prefixLength c < 0 \<Longrightarrow>
   run_lines processStartingPrefixes (toks # ls) c = Inl (Panic SliceBoundsOutOfRange)"
  by (simp add: processStartingPrefixes_def)

lemma lookup_upd:
  "lookup (m(k \<mapsto> lookup m k @ [v])) p = lookup m p @ (if p = k then [v] else [])"
  by (simp add: lookup_def)

lemma processPhrase_body_Inr:
  assumes "processPhrase_body i toks c = Inr c'"
  defines "n \<equiv> nat (prefixLength c)"
  defines "prefix \<equiv> Join (take n (drop i toks)) delim"
  shows "0 \<le> prefixLength c" and "tokensIdx c' = tokensIdx c"
    and "startingPrefixIdx c' = startingPrefixIdx c" and "prefixLength c' = prefixLength c"
    and "Find (tokensIdx c) (toks ! (i + n)) \<noteq> - 1"
    and "i = 0 \<Longrightarrow> Find (startingPrefixIdx c) prefix \<noteq> - 1"
    and "sp c' = sp c @ (if i = 0 then [Find (startingPrefixIdx c) prefix] else [])"
    and "lookup (chain c') p =
         lookup (chain c) p @ (if p = prefix then [Find (tokensIdx c) (toks ! (i + n))] else [])"
  using assms(1) unfolding n_def prefix_def
  by (auto simp: processPhrase_body_def Let_def lookup_upd split: if_splits)

lemma processPhrase_body_succeeds:
  assumes "0 \<le> prefixLength c"
    and "Find (tokensIdx c) (toks ! (i + nat (prefixLength c))) \<noteq> - 1"
    and "i = 0 \<Longrightarrow>
         Find (startingPrefixIdx c) (Join (take (nat (prefixLength c)) (drop i toks)) delim) \<noteq> - 1"
  shows "\<exists>c'. processPhrase_body i toks c = Inr c'"
  using assms by (auto simp: processPhrase_body_def Let_def)

lemma windows_from_step:
  "i < length toks - n \<Longrightarrow>
   windows_from i n toks =
     (Join (take n (drop i toks)) delim, toks ! (i + n)) # windows_from (Suc i) n toks"
  by (simp add: windows_from_def upt_conv_Cons)

lemma windows_from_done: "\<not> i < length toks - n \<Longrightarrow> windows_from i n toks = []"
  by (simp add: windows_from_def)

lemma processPhrase_loop_Inr:
  assumes "processPhrase_loop i toks c = Inr c'" and "0 \<le> prefixLength c"
  defines "n \<equiv> nat (prefixLength c)"
  shows "tokensIdx c' = tokensIdx c \<and> startingPrefixIdx c' = startingPrefixIdx c \<and>
    prefixLength c' = prefixLength c \<and>
    sp c' = sp c @ (if i = 0 \<and> n < length toks
                    then [Find (startingPrefixIdx c) (Join (take n toks) delim)] else []) \<and>
    (\<forall>p. lookup (chain c') p =
          lookup (chain c) p @ map (Find (tokensIdx c)) (followers p (windows_from i n toks))) \<and>
    - 1 \<notin> Find (tokensIdx c) ` snd ` set (windows_from i n toks) \<and>
    (i = 0 \<and> n < length toks \<longrightarrow>
       Find (startingPrefixIdx c) (Join (take n toks) delim) \<noteq> - 1)"
  using assms(1,2) unfolding n_def
proof (induction i toks c rule: processPhrase_loop.induct)
  case (1 i toks c)
  let ?n = "nat (prefixLength c)"
  show ?case
  proof (cases "int i < int (length toks) - prefixLength c")
    case False
    with "1.prems" have "c' = c" by (subst (asm) processPhrase_loop.simps) simp
    moreover from False "1.prems"(2) have "\<not> i < length toks - ?n" by linarith
    moreover from False "1.prems"(2) have "\<not> (i = 0 \<and> ?n < length toks)" by linarith
    ultimately show ?thesis by (auto simp: windows_from_done followers_def)
  next
    case True
    with "1.prems"(2) have lt: "i < length toks - ?n" by linarith
    from True "1.prems"(1) obtain c1 where
      body: "processPhrase_body i toks c = Inr c1"
      and rest: "processPhrase_loop (i + 1) toks c1 = Inr c'"
      by (subst (asm) processPhrase_loop.simps) (auto split: sum.splits)
    note b = processPhrase_body_Inr [OF body]
    from b(4) "1.prems"(2) have pl1: "0 \<le> prefixLength c1" by simp
    note IH = "1.IH" [OF True body rest pl1]
    have w: "windows_from i ?n toks =
       (Join (take ?n (drop i toks)) delim, toks ! (i + ?n)) # windows_from (Suc i) ?n toks"
      using lt by (rule windows_from_step)
    have sp: "sp c' = sp c @ (if i = 0 \<and> ?n < length toks
                    then [Find (startingPrefixIdx c) (Join (take ?n toks) delim)] else [])"
      using IH b(7) lt by (auto simp: b(4))
    have ch: "lookup (chain c') p =
          lookup (chain c) p @ map (Find (tokensIdx c)) (followers p (windows_from i ?n toks))" for p
      using IH b(8) [of p] by (simp add: b(2,4) w followers_def)
    have "- 1 \<notin> Find (tokensIdx c) ` snd ` set (windows_from i ?n toks)"
      using IH b(5) by (simp add: b(2,4) w)
    moreover have "i = 0 \<and> ?n < length toks \<longrightarrow>
       Find (startingPrefixIdx c) (Join (take ?n toks) delim) \<noteq> - 1"
      using b(6) by auto
    ultimately show ?thesis using IH sp ch by (simp add: b(2,3,4))
  qed
qed


lemma processPhrase_loop_succeeds:
  assumes "0 \<le> prefixLength c"
    and "\<forall>j. i \<le> j \<and> j < length toks - nat (prefixLength c) \<longrightarrow>
           Find (tokensIdx c) (toks ! (j + nat (prefixLength c))) \<noteq> - 1"
    and "nat (prefixLength c) < length toks \<longrightarrow>
           Find (startingPrefixIdx c) (Join (take (nat (prefixLength c)) toks) delim) \<noteq> - 1"
  shows "\<exists>c'. processPhrase_loop i toks c = Inr c'"
  using assms
proof (induction i toks c rule: processPhrase_loop.induct)
  case (1 i toks c)
  let ?n = "nat (prefixLength c)"
  show ?case
  proof (cases "int i < int (length toks) - prefixLength c")
    case False
    then show ?thesis by (subst processPhrase_loop.simps) simp
  next
    case True
    with "1.prems"(1) have lt: "i < length toks - ?n" by linarith
    have "\<exists>c1. processPhrase_body i toks c = Inr c1"
    proof (rule processPhrase_body_succeeds)
      show "0 \<le> prefixLength c" by (rule "1.prems"(1))
      show "Find (tokensIdx c) (toks ! (i + ?n)) \<noteq> - 1" using "1.prems"(2) lt by simp
      show "Find (startingPrefixIdx c) (Join (take ?n (drop i toks)) delim) \<noteq> - 1" if "i = 0"
        using that "1.prems"(3) lt by simp
    qed
    then obtain c1 where body: "processPhrase_body i toks c = Inr c1" ..
    note b = processPhrase_body_Inr [OF body]
    have "\<exists>c'. processPhrase_loop (i + 1) toks c1 = Inr c'"
      using "1.IH" [OF True body] "1.prems" by (simp add: b(2,3,4))
    with True body show ?thesis by (subst processPhrase_loop.simps) simp
  qed
qed

lemma processPhrase_loop_CantFindToken:
  assumes "0 \<le> prefixLength c" and "nat (prefixLength c) < length toks"
    and "Find (tokensIdx c) (toks ! nat (prefixLength c)) = - 1"
  shows "processPhrase_loop 0 toks c = Inl (Panic CantFindToken)"
proof -
  from assms(1,2) have "int 0 < int (length toks) - prefixLength c" by linarith
  moreover have "processPhrase_body 0 toks c = Inl (Panic CantFindToken)"
    using assms by (simp add: processPhrase_body_def)
  ultimately show ?thesis by (subst processPhrase_loop.simps) simp
qed

lemma windows_Cons: "windows n (toks # ls) = windows_from 0 n toks @ windows n ls"
  by (simp add: windows_def)

lemma line_starts_Cons:
  "line_starts n (toks # ls) =
     (if n < length toks then [Join (take n toks) delim] else []) @ line_starts n ls"
  by (simp add: line_starts_def)

lemma run_lines_processPhrase_Inr:
  assumes "run_lines processPhrase ls c = Inr c'" and "0 \<le> prefixLength c"
  defines "n \<equiv> nat (prefixLength c)"
  shows "tokensIdx c' = tokensIdx c \<and> startingPrefixIdx c' = startingPrefixIdx c \<and>
    prefixLength c' = prefixLength c \<and>
    sp c' = sp c @ map (Find (startingPrefixIdx c)) (line_starts n ls) \<and>
    (\<forall>p. lookup (chain c') p =
          lookup (chain c) p @ map (Find (tokensIdx c)) (followers p (windows n ls))) \<and>
    - 1 \<notin> Find (tokensIdx c) ` snd ` set (windows n ls) \<and>
    - 1 \<notin> Find (startingPrefixIdx c) ` set (line_starts n ls)"
  using assms(1,2) unfolding n_def
proof (induction ls arbitrary: c)
  case Nil
  then show ?case by (simp add: windows_def line_starts_def followers_def)
next
  case (Cons toks ls)
  let ?n = "nat (prefixLength c)"
  from Cons.prems(1) obtain c1 where
    first': "processPhrase toks c = Inr c1" and rest: "run_lines processPhrase ls c1 = Inr c'"
    by (auto split: sum.splits)
  from first' have first: "processPhrase_loop 0 toks c = Inr c1" by (simp add: processPhrase_def)
  note l = processPhrase_loop_Inr [OF first Cons.prems(2)]
  from l Cons.prems(2) have pl1: "0 \<le> prefixLength c1" by simp
  note IH = Cons.IH [OF rest pl1]
  from l have eqs: "tokensIdx c1 = tokensIdx c" "startingPrefixIdx c1 = startingPrefixIdx c"
    "prefixLength c1 = prefixLength c" by simp_all
  have sp: "sp c' = sp c @ map (Find (startingPrefixIdx c)) (line_starts ?n (toks # ls))"
    using IH l by (simp add: eqs line_starts_Cons)
  have ch: "lookup (chain c') p = lookup (chain c) p @
      map (Find (tokensIdx c)) (followers p (windows ?n (toks # ls)))" for p
    using IH l by (simp add: eqs windows_Cons followers_def)
  have no1: "- 1 \<notin> Find (tokensIdx c) ` snd ` set (windows ?n (toks # ls))"
    using IH l by (simp add: eqs windows_Cons image_Un)
  have no2: "- 1 \<notin> Find (startingPrefixIdx c) ` set (line_starts ?n (toks # ls))"
    using IH l by (auto simp: eqs line_starts_Cons)
  from IH sp ch no1 no2 show ?case by (simp add: eqs)
qed

lemma windows_from_0_suffix:
  "(p, t) \<in> set (windows_from 0 n toks) \<Longrightarrow>
   \<exists>j < length toks - n. t = toks ! (j + n) \<and> p = Join (take n (drop j toks)) delim"
  by (auto simp: windows_from_def)

lemma run_lines_processPhrase_succeeds:
  assumes "0 \<le> prefixLength c"
    and "\<forall>t \<in> snd ` set (windows (nat (prefixLength c)) ls). Find (tokensIdx c) t \<noteq> - 1"
    and "\<forall>p \<in> set (line_starts (nat (prefixLength c)) ls). Find (startingPrefixIdx c) p \<noteq> - 1"
  shows "\<exists>c'. run_lines processPhrase ls c = Inr c'"
  using assms
proof (induction ls arbitrary: c)
  case Nil
  show ?case by simp
next
  case (Cons toks ls)
  let ?n = "nat (prefixLength c)"
  have "\<exists>c1. processPhrase_loop 0 toks c = Inr c1"
  proof (rule processPhrase_loop_succeeds [OF Cons.prems(1)], intro allI impI)
    fix j assume "0 \<le> j \<and> j < length toks - ?n"
    then have "(Join (take ?n (drop j toks)) delim, toks ! (j + ?n)) \<in> set (windows_from 0 ?n toks)"
      by (simp add: windows_from_def)
    then have "toks ! (j + ?n) \<in> snd ` set (windows ?n (toks # ls))"
      by (force simp: windows_Cons)
    with Cons.prems(2) show "Find (tokensIdx c) (toks ! (j + ?n)) \<noteq> - 1" by blast
  next
    show "?n < length toks \<longrightarrow> Find (startingPrefixIdx c) (Join (take ?n toks) delim) \<noteq> - 1"
      using Cons.prems(3) by (simp add: line_starts_Cons)
  qed
  then obtain c1 where first: "processPhrase_loop 0 toks c = Inr c1" ..
  note l = processPhrase_loop_Inr [OF first Cons.prems(1)]
  from l have eqs: "tokensIdx c1 = tokensIdx c" "startingPrefixIdx c1 = startingPrefixIdx c"
    "prefixLength c1 = prefixLength c" by simp_all
  have "\<exists>c'. run_lines processPhrase ls c1 = Inr c'"
    using Cons.prems by (intro Cons.IH) (auto simp: eqs windows_Cons line_starts_Cons)
  moreover from first have "processPhrase toks c = Inr c1" by (simp add: processPhrase_def)
  ultimately show ?case by simp
qed

lemma processStream_Inr:
  assumes "processStream r f s = Inr s'"
  shows "\<not> failure r" and "run_lines f (corpus_lines (data r)) s = Inr s'"
proof -
  show nf: "\<not> failure r" using assms processStream_failure [of r "data r" f s] by auto
  then have "r = buffer (data r)" by (simp add: buffer_def)
  with assms have "processStream (buffer (data r)) f s = Inr s'" by simp
  then show "run_lines f (corpus_lines (data r)) s = Inr s'"
    by (simp only: processStream_buffer)
qed

lemma corpus_lines_not_Nil [simp]: "corpus_lines bs \<noteq> []"
  by (simp add: corpus_lines_def)

lemma data_buffer [simp]: "data (buffer bs) = bs"
  by (simp add: buffer_def)

lemma failure_buffer [simp]: "\<not> failure (buffer bs)"
  by (simp add: buffer_def)

lemma Build_buffer:
  "Build c (buffer bs) =
     (case run_lines processTokens (corpus_lines bs) c of
        Inl e \<Rightarrow> Inl e
      | Inr c1 \<Rightarrow>
          (case run_lines processStartingPrefixes (corpus_lines bs) c1 of
             Inl e \<Rightarrow> Inl e
           | Inr c2 \<Rightarrow> run_lines processPhrase (corpus_lines bs) c2))"
  by (simp add: Build_def buildTokenIndex_def buildPrefixIndex_def buildChain_def
      processStream_buffer cong: sum.case_cong)


lemma Build_Inr:
  assumes "Build c r = Inr c'"
  defines "ls \<equiv> corpus_lines (data r)" and "n \<equiv> nat (prefixLength c)"
  shows "\<not> failure r" and "0 \<le> prefixLength c"
    and "tokensIdx c' = foldl Add (tokensIdx c) (concat ls)"
    and "startingPrefixIdx c' = foldl Add (startingPrefixIdx c) (starting_prefixes n ls)"
    and "prefixLength c' = prefixLength c"
    and "sp c' = sp c @ map (Find (startingPrefixIdx c')) (line_starts n ls)"
    and "lookup (chain c') p =
         lookup (chain c) p @ map (Find (tokensIdx c')) (followers p (windows n ls))"
    and "- 1 \<notin> Find (tokensIdx c') ` snd ` set (windows n ls)"
    and "- 1 \<notin> Find (startingPrefixIdx c') ` set (line_starts n ls)"
proof -
  from assms(1) obtain c1 c2 where
    p1: "processStream r processTokens c = Inr c1"
    and p2: "processStream (buffer (data r)) processStartingPrefixes c1 = Inr c2"
    and p3: "processStream (buffer (data r)) processPhrase c2 = Inr c'"
    by (auto simp: Build_def buildTokenIndex_def buildPrefixIndex_def buildChain_def
        split: sum.splits)
  show nf: "\<not> failure r" using p1 by (rule processStream_Inr(1))
  have r1: "run_lines processTokens (corpus_lines (data r)) c = Inr c1"
    using p1 by (rule processStream_Inr(2))
  from r1 have c1: "c1 = c\<lparr>tokensIdx := foldl Add (tokensIdx c) (concat ls)\<rparr>"
    by (simp add: run_lines_processTokens ls_def)
  from processStream_Inr(2) [OF p2]
  have r2: "run_lines processStartingPrefixes ls c1 = Inr c2" by (simp add: ls_def)
  obtain toks rest where ls: "ls = toks # rest"
    by (cases ls) (simp_all add: ls_def)
  show pl: "0 \<le> prefixLength c"
  proof (rule ccontr)
    assume "\<not> 0 \<le> prefixLength c"
    then have "prefixLength c1 < 0" by (simp add: c1)
    then have "run_lines processStartingPrefixes (toks # rest) c1 = Inl (Panic SliceBoundsOutOfRange)"
      by (rule run_lines_processStartingPrefixes_negative)
    with r2 ls show False by simp
  qed
  then have "0 \<le> prefixLength c1" by (simp add: c1)
  from run_lines_processStartingPrefixes [OF this, of ls] r2
  have c2: "c2 = c1\<lparr>startingPrefixIdx :=
       foldl Add (startingPrefixIdx c1) (starting_prefixes (nat (prefixLength c1)) ls)\<rparr>"
    by simp
  from processStream_Inr(2) [OF p3]
  have r3: "run_lines processPhrase ls c2 = Inr c'" by (simp add: ls_def)
  have pl2: "0 \<le> prefixLength c2" using pl by (simp add: c2 c1)
  note l = run_lines_processPhrase_Inr [OF r3 pl2]
  have e: "tokensIdx c2 = foldl Add (tokensIdx c) (concat ls)"
    "startingPrefixIdx c2 = foldl Add (startingPrefixIdx c) (starting_prefixes n ls)"
    "prefixLength c2 = prefixLength c" "sp c2 = sp c" "chain c2 = chain c"
    by (simp_all add: c2 c1 n_def)
  from l show "tokensIdx c' = foldl Add (tokensIdx c) (concat ls)" by (simp add: e)
  from l show "startingPrefixIdx c' = foldl Add (startingPrefixIdx c) (starting_prefixes n ls)"
    by (simp add: e)
  from l show "prefixLength c' = prefixLength c" by (simp add: e)
  from l show "sp c' = sp c @ map (Find (startingPrefixIdx c')) (line_starts n ls)"
    by (simp add: e n_def)
  from l show "lookup (chain c') p =
         lookup (chain c) p @ map (Find (tokensIdx c')) (followers p (windows n ls))"
    by (simp add: e n_def)
  from l show "- 1 \<notin> Find (tokensIdx c') ` snd ` set (windows n ls)"
    by (simp add: e n_def)
  from l show "- 1 \<notin> Find (startingPrefixIdx c') ` set (line_starts n ls)"
    by (simp add: e n_def)
qed

lemma Build_succeeds:
  assumes "\<not> failure r" and "0 \<le> prefixLength c"
  defines "ls \<equiv> corpus_lines (data r)" and "n \<equiv> nat (prefixLength c)"
  assumes "\<forall>t \<in> snd ` set (windows n ls).
             Find (foldl Add (tokensIdx c) (concat ls)) t \<noteq> - 1"
    and "\<forall>p \<in> set (line_starts n ls).
             Find (foldl Add (startingPrefixIdx c) (starting_prefixes n ls)) p \<noteq> - 1"
  shows "\<exists>c'. Build c r = Inr c'"
proof -
  from assms(1) have r: "r = buffer (data r)" by (simp add: buffer_def)
  define c1 where "c1 = c\<lparr>tokensIdx := foldl Add (tokensIdx c) (concat ls)\<rparr>"
  define c2 where "c2 = c1\<lparr>startingPrefixIdx :=
       foldl Add (startingPrefixIdx c1) (starting_prefixes (nat (prefixLength c1)) ls)\<rparr>"
  have r1: "run_lines processTokens ls c = Inr c1"
    by (simp add: run_lines_processTokens c1_def)
  have "0 \<le> prefixLength c1" using assms(2) by (simp add: c1_def)
  then have r2: "run_lines processStartingPrefixes ls c1 = Inr c2"
    unfolding c2_def by (rule run_lines_processStartingPrefixes)
  have e: "tokensIdx c2 = foldl Add (tokensIdx c) (concat ls)"
    "startingPrefixIdx c2 = foldl Add (startingPrefixIdx c) (starting_prefixes n ls)"
    "prefixLength c2 = prefixLength c"
    by (simp_all add: c2_def c1_def n_def)
  have "\<exists>c'. run_lines processPhrase ls c2 = Inr c'"
    using assms(2,5,6) by (intro run_lines_processPhrase_succeeds) (simp_all add: e n_def)
  then obtain c' where r3: "run_lines processPhrase ls c2 = Inr c'" ..
  have "Build c (buffer (data r)) = Inr c'"
    using r1 r2 r3 by (simp add: Build_buffer ls_def)
  with r show ?thesis by auto
qed

subsection \<open>Lookups during the last pass\<close>

lemma int32_of_nat_eq_iff:
  assumes "p < 2 ^ 32" and "q < 2 ^ 32"
  shows "(word_of_nat p :: int32) = word_of_nat q \<longleftrightarrow> p = q"
proof
  assume "(word_of_nat p :: int32) = word_of_nat q"
  then have "unat (word_of_nat p :: int32) = unat (word_of_nat q :: int32)" by simp
  with assms show "p = q" by (simp add: unat_of_nat)
qed simp

lemma int32_of_nat_minus1:
  assumes "p < 2 ^ 32 - 1"
  shows "(word_of_nat p :: int32) \<noteq> - 1"
proof
  assume "(word_of_nat p :: int32) = - 1"
  then have "unat (word_of_nat p :: int32) = unat (- 1 :: int32)" by simp
  moreover have "unat (- 1 :: int32) = 2 ^ 32 - 1"
    by (simp add: unsigned_minus_1_eq_mask mask_eq_exp_minus_1)
  ultimately show False using assms by (simp add: unat_of_nat)
qed

lemma Find_member:
  assumes "sorted_wrt (<) (tokens idx)" and "t \<in> set (tokens idx)"
  obtains p where "p < length (tokens idx)" "tokens idx ! p = t" "Find idx t = word_of_nat p"
proof -
  from assms(2) obtain p where p: "p < length (tokens idx)" "tokens idx ! p = t"
    by (auto simp: in_set_conv_nth)
  with assms(1) have "Find idx t = word_of_nat p" using Find_nth by blast
  with p that show thesis by blast
qed

lemma Find_member_found:
  assumes "sorted_wrt (<) (tokens idx)" and "t \<in> set (tokens idx)"
    and "length (tokens idx) < 2 ^ 32"
  shows "Find idx t \<noteq> - 1"
proof -
  from assms(1,2) obtain p where p: "p < length (tokens idx)" "Find idx t = word_of_nat p"
    by (rule Find_member)
  with assms(3) have "p < 2 ^ 32 - 1" by simp
  with p(2) show ?thesis by (simp add: int32_of_nat_minus1)
qed

lemma windows_from_tokens: "snd ` set (windows_from i n toks) \<subseteq> set toks"
  by (auto simp: windows_from_def)

lemma windows_tokens: "snd ` set (windows n ls) \<subseteq> set (concat ls)"
  using windows_from_tokens by (fastforce simp: windows_def)

lemma line_starts_subset: "set (line_starts n ls) \<subseteq> set (starting_prefixes n ls)"
  by (auto simp: line_starts_def starting_prefixes_def)

lemma buildTokenIndex_Inr:
  assumes "buildTokenIndex c r = Inr c1"
  shows "\<not> failure r"
    and "c1 = c\<lparr>tokensIdx := foldl Add (tokensIdx c) (concat (corpus_lines (data r)))\<rparr>"
proof -
  from assms have p: "processStream r processTokens c = Inr c1"
    by (simp add: buildTokenIndex_def)
  then show "\<not> failure r" by (rule processStream_Inr(1))
  from processStream_Inr(2) [OF p]
  show "c1 = c\<lparr>tokensIdx := foldl Add (tokensIdx c) (concat (corpus_lines (data r)))\<rparr>"
    by (simp add: run_lines_processTokens)
qed

lemma buildPrefixIndex_Inr:
  assumes "buildPrefixIndex c1 (buffer bs) = Inr c2"
  shows "0 \<le> prefixLength c1"
    and "c2 = c1\<lparr>startingPrefixIdx := foldl Add (startingPrefixIdx c1)
           (starting_prefixes (nat (prefixLength c1)) (corpus_lines bs))\<rparr>"
proof -
  from assms have r2: "run_lines processStartingPrefixes (corpus_lines bs) c1 = Inr c2"
    by (simp add: buildPrefixIndex_def processStream_buffer)
  obtain toks rest where ls: "corpus_lines bs = toks # rest"
    by (cases "corpus_lines bs") simp_all
  show pl: "0 \<le> prefixLength c1"
  proof (rule ccontr)
    assume "\<not> 0 \<le> prefixLength c1"
    then have "prefixLength c1 < 0" by simp
    then have "run_lines processStartingPrefixes (toks # rest) c1 = Inl (Panic SliceBoundsOutOfRange)"
      by (rule run_lines_processStartingPrefixes_negative)
    with r2 ls show False by simp
  qed
  from run_lines_processStartingPrefixes [OF pl, of "corpus_lines bs"] r2
  show "c2 = c1\<lparr>startingPrefixIdx := foldl Add (startingPrefixIdx c1)
           (starting_prefixes (nat (prefixLength c1)) (corpus_lines bs))\<rparr>"
    by simp
qed

text \<open>
  Claim C4, amended. Let the indexes of a chain be strictly sorted (as those of a new
  chain are), let the first two passes of \<open>Build\<close> succeed, and let each index
  then hold fewer than \<open>2^32\<close> entries. Then in the last pass, over the same bytes,
  every lookup of a suffix and of a line's starting prefix finds its token (the result is
  not \<open>-1\<close>), neither panic is raised, and \<open>Build\<close> succeeds.
\<close>

theorem Build_lookups_succeed:
  assumes "sorted_wrt (<) (tokens (tokensIdx c))"
    and "sorted_wrt (<) (tokens (startingPrefixIdx c))"
    and "buildTokenIndex c r = Inr c1"
    and "buildPrefixIndex c1 (buffer (data r)) = Inr c2"
    and "length (tokens (tokensIdx c2)) < 2 ^ 32"
    and "length (tokens (startingPrefixIdx c2)) < 2 ^ 32"
  shows "(\<forall>t \<in> snd ` set (windows (nat (prefixLength c)) (corpus_lines (data r))).
            Find (tokensIdx c2) t \<noteq> - 1) \<and>
         (\<forall>p \<in> set (line_starts (nat (prefixLength c)) (corpus_lines (data r))).
            Find (startingPrefixIdx c2) p \<noteq> - 1) \<and>
         buildChain c2 (buffer (data r)) \<noteq> Inl (Panic CantFindToken) \<and>
         buildChain c2 (buffer (data r)) \<noteq> Inl (Panic CantFindStartingPrefix) \<and>
         (\<exists>c'. buildChain c2 (buffer (data r)) = Inr c' \<and> Build c r = Inr c')"
proof -
  let ?ls = "corpus_lines (data r)" and ?n = "nat (prefixLength c)"
  note b1 = buildTokenIndex_Inr [OF assms(3)]
  note b2 = buildPrefixIndex_Inr [OF assms(4)]
  have e: "tokensIdx c2 = foldl Add (tokensIdx c) (concat ?ls)"
    "startingPrefixIdx c2 = foldl Add (startingPrefixIdx c) (starting_prefixes ?n ?ls)"
    "prefixLength c2 = prefixLength c"
    by (subst b2(2), subst b1(2), simp add: b1(2))+
  have pl: "0 \<le> prefixLength c2" using b2(1) by (simp add: e b1(2))
  have s1: "sorted_wrt (<) (tokens (tokensIdx c2))"
    unfolding e using assms(1) by (rule sorted_foldl_Add)
  have s2: "sorted_wrt (<) (tokens (startingPrefixIdx c2))"
    unfolding e using assms(2) by (rule sorted_foldl_Add)
  have f1: "\<forall>t \<in> snd ` set (windows ?n ?ls). Find (tokensIdx c2) t \<noteq> - 1"
  proof
    fix t assume "t \<in> snd ` set (windows ?n ?ls)"
    with windows_tokens have "t \<in> set (concat ?ls)" by blast
    then have "t \<in> set (tokens (tokensIdx c2))" by (simp add: e set_foldl_Add)
    with s1 show "Find (tokensIdx c2) t \<noteq> - 1" using assms(5) by (rule Find_member_found)
  qed
  have f2: "\<forall>p \<in> set (line_starts ?n ?ls). Find (startingPrefixIdx c2) p \<noteq> - 1"
  proof
    fix p assume "p \<in> set (line_starts ?n ?ls)"
    with line_starts_subset have "p \<in> set (starting_prefixes ?n ?ls)" by blast
    then have "p \<in> set (tokens (startingPrefixIdx c2))" by (simp add: e set_foldl_Add)
    with s2 show "Find (startingPrefixIdx c2) p \<noteq> - 1" using assms(6) by (rule Find_member_found)
  qed
  have "\<exists>c'. run_lines processPhrase ?ls c2 = Inr c'"
    using pl f1 f2 by (intro run_lines_processPhrase_succeeds) (simp_all add: e)
  then obtain c' where "run_lines processPhrase ?ls c2 = Inr c'" ..
  then have bc: "buildChain c2 (buffer (data r)) = Inr c'"
    by (simp add: buildChain_def processStream_buffer)
  with assms(3,4) have "Build c r = Inr c'" by (simp add: Build_def)
  with bc f1 f2 show ?thesis by simp
qed

lemma set_shuffled_numbers: "3 \<le> n \<Longrightarrow> set (shuffled_numbers n) = {0..<n}"
  by (auto simp: shuffled_numbers_def)

lemma distinct_shuffled_numbers: "3 \<le> n \<Longrightarrow> distinct (shuffled_numbers n)"
  by (auto simp: shuffled_numbers_def)

lemma length_shuffled_line: "3 \<le> n \<Longrightarrow> length (shuffled_line n) = n"
  by (simp add: shuffled_line_def shuffled_numbers_def)

lemma shuffled_line_nth:
  assumes "3 \<le> n"
  shows "shuffled_line n ! 0 = digits 9 (n - 2)" and "shuffled_line n ! 1 = digits 9 0"
    and "shuffled_line n ! 2 = digits 9 (n - 1)"
  by (simp_all add: shuffled_line_def shuffled_numbers_def)

lemma letter_digits: "c \<in> set (digits w k) \<Longrightarrow> letter c"
  by (induction w) (auto simp: letter_def)

lemma digits_no_delim: "delim \<notin> set (digits w k)"
  using letter_digits [of delim w k] by (auto simp: letter_def delim_def)

lemma digits_no_newline: "newline \<notin> set (digits w k)"
  using letter_digits [of newline w k] by (auto simp: letter_def newline_def)

lemma set_Join: "set (Join ts sep) \<subseteq> insert sep (set (concat ts))"
  by (induction ts sep rule: Join.induct) auto

lemma hd_Join: "t \<noteq> [] \<Longrightarrow> hd (Join (t # ts) sep) = hd t"
  by (cases ts) auto

lemma Join_not_Nil: "ts \<noteq> [] \<Longrightarrow> last ts \<noteq> [] \<Longrightarrow> Join ts sep \<noteq> []"
  by (induction ts sep rule: Join.induct) auto

lemma last_Join: "ts \<noteq> [] \<Longrightarrow> last ts \<noteq> [] \<Longrightarrow> last (Join ts sep) = last (last ts)"
  by (induction ts sep rule: Join.induct) (auto simp: Join_not_Nil)

lemma space_width_0:
  assumes "s \<noteq> []" and "\<forall>w \<in> set ws. w \<noteq> [] \<and> hd w \<noteq> hd s"
  shows "space_width ws s = 0"
  using assms(2)
proof (induction ws)
  case Nil
  show ?case by simp
next
  case (Cons w ws)
  have "take (length w) s \<noteq> w"
  proof
    assume "take (length w) s = w"
    then have "hd (take (length w) s) = hd w" by simp
    moreover from Cons.prems have "w \<noteq> []" by simp
    ultimately have "hd s = hd w" using assms(1) by (cases s; cases w) auto
    with Cons.prems show False by simp
  qed
  with Cons show ?case by simp
qed

lemma space_runes_no_letter:
  "list_all (\<lambda>w. w \<noteq> [] \<and> \<not> letter (hd w) \<and> \<not> letter (last w)) space_runes"
  by code_simp

lemma TrimSpace_letters:
  assumes "s \<noteq> []" and "letter (hd s)" and "letter (last s)"
  shows "TrimSpace s = s"
proof -
  from space_runes_no_letter
  have r: "\<forall>w \<in> set space_runes. w \<noteq> [] \<and> \<not> letter (hd w) \<and> \<not> letter (last w)"
    by (simp only: list_all_iff)
  have "space_width space_runes s = 0"
    using assms(1) by (rule space_width_0) (use r assms(2) in auto)
  then have l: "TrimLeft s = s"
    unfolding TrimLeft_def by (subst trim_front.simps) simp
  have "space_width (map rev space_runes) (rev s) = 0"
    using assms(1,3) r by (intro space_width_0) (auto simp: hd_rev)
  then have "TrimRight s = s"
    unfolding TrimRight_def by (subst trim_front.simps) simp
  with l show ?thesis by (simp add: TrimSpace_def)
qed

lemma digits_not_Nil: "0 < w \<Longrightarrow> digits w k \<noteq> []"
  by (cases w) auto

lemma shuffled_line_pieces:
  "\<forall>t \<in> set (shuffled_line n). t \<noteq> [] \<and> delim \<notin> set t \<and> newline \<notin> set t \<and>
     (\<forall>c \<in> set t. letter c)"
  by (auto simp: shuffled_line_def digits_not_Nil digits_no_delim digits_no_newline letter_digits)

lemma shuffled_line_not_Nil: "shuffled_line n \<noteq> []"
  by (simp add: shuffled_line_def shuffled_numbers_def)

lemma corpus_lines_shuffled_corpus: "corpus_lines (shuffled_corpus n) = [shuffled_line n]"
proof -
  let ?ts = "shuffled_line n" and ?s = "shuffled_corpus n"
  note p = shuffled_line_pieces [of n]
  obtain t ts where ts: "?ts = t # ts" using shuffled_line_not_Nil by (cases ?ts) auto
  have l: "last ?ts \<in> set ?ts" using shuffled_line_not_Nil by simp
  have "letter delim \<Longrightarrow> False" by (simp add: letter_def delim_def)
  have nn: "newline \<notin> set ?s"
  proof
    assume "newline \<in> set ?s"
    with set_Join [of ?ts delim] have "newline = delim \<or> newline \<in> set (concat ?ts)"
      by (auto simp: shuffled_corpus_def)
    with p show False by (auto simp: newline_def delim_def)
  qed
  have ne: "?s \<noteq> []"
    unfolding shuffled_corpus_def using shuffled_line_not_Nil l p by (intro Join_not_Nil) auto
  have "hd ?s = hd t" using p ts by (simp add: shuffled_corpus_def hd_Join)
  moreover have "hd t \<in> set t" using p ts by simp
  ultimately have h: "letter (hd ?s)" using p ts by simp
  have "last ?s = last (last ?ts)"
    unfolding shuffled_corpus_def using shuffled_line_not_Nil l p by (intro last_Join) auto
  moreover have "last (last ?ts) \<in> set (last ?ts)" using l p by simp
  ultimately have la: "letter (last ?s)" using l p by auto
  have "TrimSpace ?s = ?s" using ne h la by (rule TrimSpace_letters)
  moreover have "Split ?s delim = ?ts"
    unfolding shuffled_corpus_def using shuffled_line_not_Nil p by (intro Split_Join) auto
  ultimately have "tokenize ?s = ?ts" by (simp add: tokenize_def)
  with nn show ?thesis by (simp add: corpus_lines_def Split_no_sep)
qed

lemma set_shuffled_line: "3 \<le> n \<Longrightarrow> set (shuffled_line n) = set (numbered_tokens n)"
  by (simp add: shuffled_line_def numbered_tokens_def set_shuffled_numbers)

lemma foldl_Add_shuffled_line:
  assumes "3 \<le> n" and "n \<le> 16 ^ 9"
  shows "foldl Add \<lparr>tokens = []\<rparr> (shuffled_line n) = wide_index n"
proof -
  let ?idx = "foldl Add \<lparr>tokens = []\<rparr> (shuffled_line n)"
  have "sorted_wrt (<) (tokens ?idx)" by (rule sorted_foldl_Add) simp
  moreover have "set (tokens ?idx) = set (numbered_tokens n)"
    using assms(1) by (simp add: set_foldl_Add set_shuffled_line)
  ultimately have "tokens ?idx = numbered_tokens n"
    using sorted_numbered_tokens [OF assms(2)] by (metis strict_sorted_equal)
  then show ?thesis by (simp add: wide_index_def)
qed

lemma Build_shuffled_CantFindToken:
  assumes "3 \<le> n" and "n \<le> 16 ^ 9" and "(word_of_nat (n - 1) :: int32) = - 1"
  shows "Build (NewChain 2) (buffer (shuffled_corpus n)) = Inl (Panic CantFindToken)"
proof -
  let ?line = "shuffled_line n"
  define c1 where "c1 = (NewChain 2)\<lparr>tokensIdx := wide_index n\<rparr>"
  define c2 where "c2 = c1\<lparr>startingPrefixIdx :=
       foldl Add (startingPrefixIdx c1) (starting_prefixes (nat (prefixLength c1)) [?line])\<rparr>"
  have "tokensIdx (NewChain 2) = \<lparr>tokens = []\<rparr>" by (simp add: NewChain_def)
  then have "(NewChain 2)\<lparr>tokensIdx := foldl Add (tokensIdx (NewChain 2)) (concat [?line])\<rparr> = c1"
    using assms(1,2) by (simp add: c1_def foldl_Add_shuffled_line)
  then have r1: "run_lines processTokens [?line] (NewChain 2) = Inr c1"
    by (simp only: run_lines_processTokens)
  have pl1: "0 \<le> prefixLength c1" by (simp add: c1_def NewChain_def)
  then have r2: "run_lines processStartingPrefixes [?line] c1 = Inr c2"
    unfolding c2_def by (rule run_lines_processStartingPrefixes)
  have e: "tokensIdx c2 = wide_index n" "prefixLength c2 = 2"
    by (simp_all add: c2_def c1_def NewChain_def)
  have "Find (tokensIdx c2) (?line ! nat (prefixLength c2)) = word_of_nat (n - 1)"
    using assms(1,2) by (simp add: e shuffled_line_nth Find_wide_index)
  with assms(3) have "Find (tokensIdx c2) (?line ! nat (prefixLength c2)) = - 1" by simp
  moreover have "nat (prefixLength c2) < length ?line"
    using assms(1) by (simp add: e length_shuffled_line)
  moreover have "0 \<le> prefixLength c2" by (simp add: e)
  ultimately have "processPhrase_loop 0 ?line c2 = Inl (Panic CantFindToken)"
    by (intro processPhrase_loop_CantFindToken)
  then have r3: "run_lines processPhrase [?line] c2 = Inl (Panic CantFindToken)"
    by (simp add: processPhrase_def)
  show ?thesis
    using r1 r2 r3 by (simp add: Build_buffer corpus_lines_shuffled_corpus)
qed

text \<open>
  Claim C4 as stated fails on the one-line corpus of \<open>2^32\<close> distinct tokens with
  prefix length 2: the third token of the line is the largest token, its position
  \<open>2^32 - 1\<close> converts to the \<open>int32\<close> value \<open>-1\<close>, and the first suffix
  lookup of \<open>buildChain\<close> panics although the three passes read the same bytes.
\<close>

theorem Build_lookups_succeed_counterexample:
  "Build (NewChain 2) (buffer (shuffled_corpus (2 ^ 32))) = Inl (Panic CantFindToken)"
  by (rule Build_shuffled_CantFindToken) simp_all

text \<open>The three passes on the corpus of \<open>Test_BuildChain\<close> with prefix length 2.\<close>

theorem Build_lookups_succeed_witness:
  "\<not> isl (buildTokenIndex (NewChain 2) (buffer test_corpus)) \<and>
   \<not> isl (buildPrefixIndex (projr (buildTokenIndex (NewChain 2) (buffer test_corpus)))
       (buffer test_corpus)) \<and>
   buildChain (projr (buildPrefixIndex (projr (buildTokenIndex (NewChain 2) (buffer test_corpus)))
       (buffer test_corpus))) (buffer test_corpus) \<noteq> Inl (Panic CantFindToken) \<and>
   buildChain (projr (buildPrefixIndex (projr (buildTokenIndex (NewChain 2) (buffer test_corpus)))
       (buffer test_corpus))) (buffer test_corpus) \<noteq> Inl (Panic CantFindStartingPrefix) \<and>
   \<not> isl (Build (NewChain 2) (buffer test_corpus))"
proof -
  let ?c = "NewChain 2" and ?r = "buffer test_corpus"
  let ?c1 = "projr (buildTokenIndex ?c ?r)"
  let ?c2 = "projr (buildPrefixIndex ?c1 ?r)"
  have i1: "\<not> isl (buildTokenIndex ?c ?r)" by code_simp
  then have b1: "buildTokenIndex ?c ?r = Inr ?c1" by simp
  have i2: "\<not> isl (buildPrefixIndex ?c1 ?r)" by code_simp
  then have b2: "buildPrefixIndex ?c1 (buffer (data ?r)) = Inr ?c2" by simp
  have s: "sorted_wrt (<) (tokens (tokensIdx ?c))" "sorted_wrt (<) (tokens (startingPrefixIdx ?c))"
    by (simp_all add: NewChain_def)
  have "length (tokens (tokensIdx ?c2)) = 12" "length (tokens (startingPrefixIdx ?c2)) = 2"
    by code_simp+
  then have l: "length (tokens (tokensIdx ?c2)) < 2 ^ 32"
    "length (tokens (startingPrefixIdx ?c2)) < 2 ^ 32" by simp_all
  from Build_lookups_succeed [OF s b1 b2 l] i1 i2 show ?thesis by auto
qed

subsection \<open>A second Build\<close>

text \<open>
  Claim C9. \<open>Build\<close> starts from the state the chain is in: after a successful
  \<open>Build\<close> on any chain the prefix length is the same, each index holds its old
  tokens and those of the new corpus, \<open>sp\<close> is the old \<open>sp\<close> followed by the
  new entries, and every entry of the chain map is the old entry followed by the new
  positions. Positions recorded before can afterwards name other tokens: after building
  from \<open>b c\<close> and then from \<open>a b\<close> with prefix length 1, the chain entry of
  \<open>b\<close> is still the position 1, which was the token \<open>c\<close> and is now \<open>b\<close>.
\<close>

theorem Build_merges:
  assumes "Build c r = Inr c'"
  shows "prefixLength c' = prefixLength c \<and>
    set (tokens (tokensIdx c')) =
      set (tokens (tokensIdx c)) \<union> set (concat (corpus_lines (data r))) \<and>
    set (tokens (startingPrefixIdx c')) =
      set (tokens (startingPrefixIdx c)) \<union>
      set (starting_prefixes (nat (prefixLength c)) (corpus_lines (data r))) \<and>
    sp c' = sp c @ map (Find (startingPrefixIdx c'))
      (line_starts (nat (prefixLength c)) (corpus_lines (data r))) \<and>
    lookup (chain c') p = lookup (chain c) p @ map (Find (tokensIdx c'))
      (followers p (windows (nat (prefixLength c)) (corpus_lines (data r)))) \<and>
    (case Build (NewChain 1) (buffer ''b c'') of
       Inl e \<Rightarrow> False
     | Inr c1 \<Rightarrow>
         (case Build c1 (buffer ''a b'') of
            Inl e \<Rightarrow> False
          | Inr c2 \<Rightarrow>
              lookup (chain c1) ''b'' = [1] \<and> Get (tokensIdx c1) 1 = Inr ''c'' \<and>
              lookup (chain c2) ''b'' = [1] \<and> Get (tokensIdx c2) 1 = Inr ''b''))"
proof -
  note b = Build_Inr [OF assms]
  have "case Build (NewChain 1) (buffer ''b c'') of
       Inl e \<Rightarrow> False
     | Inr c1 \<Rightarrow>
         (case Build c1 (buffer ''a b'') of
            Inl e \<Rightarrow> False
          | Inr c2 \<Rightarrow>
              lookup (chain c1) ''b'' = [1] \<and> Get (tokensIdx c1) 1 = Inr ''c'' \<and>
              lookup (chain c2) ''b'' = [1] \<and> Get (tokensIdx c2) 1 = Inr ''b'')"
    by code_simp
  with b(5) b(6) b(7) [of p] show ?thesis
    by (simp add: b(3,4) set_foldl_Add)
qed

text \<open>A chain built from \<open>b c\<close> and then from \<open>a b\<close>, with prefix length 1.\<close>

theorem Build_merges_witness:
  "\<not> isl (Build (NewChain 1) (buffer ''b c'')) \<and>
   \<not> isl (Build (projr (Build (NewChain 1) (buffer ''b c''))) (buffer ''a b'')) \<and>
   tokens (tokensIdx (projr (Build (NewChain 1) (buffer ''b c'')))) = [''b'', ''c''] \<and>
   set (tokens (tokensIdx
      (projr (Build (projr (Build (NewChain 1) (buffer ''b c''))) (buffer ''a b''))))) =
     set [''b'', ''c''] \<union> set [''a'', ''b''] \<and>
   lookup (chain (projr (Build (NewChain 1) (buffer ''b c'')))) ''b'' = [1] \<and>
   lookup (chain (projr (Build (projr (Build (NewChain 1) (buffer ''b c''))) (buffer ''a b''))))
     ''b'' = [1] @ []"
proof -
  let ?c1 = "projr (Build (NewChain 1) (buffer ''b c''))"
  let ?c2 = "projr (Build ?c1 (buffer ''a b''))"
  have i1: "\<not> isl (Build (NewChain 1) (buffer ''b c''))" by code_simp
  have i2: "\<not> isl (Build ?c1 (buffer ''a b''))" by code_simp
  then have e: "Build ?c1 (buffer ''a b'') = Inr ?c2" by simp
  have t1: "tokens (tokensIdx ?c1) = [''b'', ''c'']" by code_simp
  have l1: "lookup (chain ?c1) ''b'' = [1]" by code_simp
  have ls: "concat (corpus_lines ''a b'') = [''a'', ''b'']" by code_simp
  have f: "followers ''b'' (windows (nat (prefixLength ?c1)) (corpus_lines ''a b'')) = []"
    by code_simp
  from Build_merges [OF e, of "''b''"] i1 i2 show ?thesis
    by (simp add: t1 l1 ls f)
qed

subsection \<open>Frequencies in the chain map\<close>

lemma count_list_map_inj:
  "(\<forall>x \<in> set xs. f x = f t \<longrightarrow> x = t) \<Longrightarrow> count_list (map f xs) (f t) = count_list xs t"
  by (induction xs) auto

lemma followers_subset: "set (followers p ws) \<subseteq> snd ` set ws"
  by (auto simp: followers_def)

lemma lookup_NewChain [simp]: "lookup (chain (NewChain l)) p = []"
  by (simp add: NewChain_def lookup_def)

lemma NewChain_simps [simp]:
  "tokensIdx (NewChain l) = \<lparr>tokens = []\<rparr>" "startingPrefixIdx (NewChain l) = \<lparr>tokens = []\<rparr>"
  "sp (NewChain l) = []" "prefixLength (NewChain l) = l"
  by (simp_all add: NewChain_def)

text \<open>
  Claim C6, amended. After a successful \<open>Build\<close> on a new chain whose token index
  then holds at most \<open>2^32\<close> tokens, for every prefix string \<open>p\<close> and every
  token \<open>t\<close> the result of \<open>Find\<close> for \<open>t\<close> occurs in the chain entry of
  \<open>p\<close> as often as the corpus has a window whose prefix joins to \<open>p\<close> and whose
  next token is \<open>t\<close>.
\<close>

theorem chain_counts_followers:
  assumes "Build (NewChain l) r = Inr c" and "length (tokens (tokensIdx c)) \<le> 2 ^ 32"
  shows "count_list (lookup (chain c) p) (Find (tokensIdx c) t) =
         count_list (followers p (windows (nat l) (corpus_lines (data r)))) t"
proof -
  let ?ls = "corpus_lines (data r)" and ?idx = "tokensIdx c"
  let ?F = "followers p (windows (nat l) ?ls)"
  note b = Build_Inr [OF assms(1)]
  have idx: "?idx = foldl Add \<lparr>tokens = []\<rparr> (concat ?ls)" using b(3) by simp
  have s: "sorted_wrt (<) (tokens ?idx)" unfolding idx by (rule sorted_foldl_Add) simp
  have lk: "lookup (chain c) p = map (Find ?idx) ?F" using b(7) [of p] by simp
  have inj: "\<forall>x \<in> set ?F. Find ?idx x = Find ?idx t \<longrightarrow> x = t"
  proof (intro ballI impI)
    fix x assume x: "x \<in> set ?F" and eq: "Find ?idx x = Find ?idx t"
    from x followers_subset have xw: "x \<in> snd ` set (windows (nat l) ?ls)" by blast
    have "Find ?idx x \<noteq> - 1"
    proof
      assume "Find ?idx x = - 1"
      with xw have "- 1 \<in> Find ?idx ` snd ` set (windows (nat l) ?ls)"
        by (metis imageI)
      with b(8) show False by simp
    qed
    with eq have "Find ?idx t \<noteq> - 1" by simp
    then have "t \<in> set (tokens ?idx)" by (rule Find_found)
    with s obtain q where q: "q < length (tokens ?idx)" "tokens ?idx ! q = t"
      "Find ?idx t = word_of_nat q" by (rule Find_member)
    from xw windows_tokens have "x \<in> set (concat ?ls)" by blast
    then have "x \<in> set (tokens ?idx)" by (simp add: idx set_foldl_Add)
    with s obtain p' where p': "p' < length (tokens ?idx)" "tokens ?idx ! p' = x"
      "Find ?idx x = word_of_nat p'" by (rule Find_member)
    from p'(1) q(1) assms(2) have "p' < 2 ^ 32" "q < 2 ^ 32" by simp_all
    with eq p'(3) q(3) have "p' = q" by (simp add: int32_of_nat_eq_iff)
    with p'(2) q(2) show "x = t" by simp
  qed
  then have "count_list (map (Find ?idx) ?F) (Find ?idx t) = count_list ?F t"
    by (rule count_list_map_inj)
  with lk show ?thesis by simp
qed

text \<open>In the corpus of \<open>Test_BuildChain\<close> the token \<open>jumps\<close> follows \<open>brown fox,\<close> once.\<close>

theorem chain_counts_followers_witness:
  "\<not> isl (Build (NewChain 2) (buffer test_corpus)) \<and>
   count_list (lookup (chain (projr (Build (NewChain 2) (buffer test_corpus)))) ''brown fox,'')
     (Find (tokensIdx (projr (Build (NewChain 2) (buffer test_corpus)))) ''jumps'') = 1 \<and>
   lookup (chain (projr (Build (NewChain 2) (buffer test_corpus)))) ''brown fox,'' = [6, 5] \<and>
   count_list (followers ''brown fox,'' (windows 2 (corpus_lines test_corpus))) ''jumps'' = 1"
proof -
  let ?c = "projr (Build (NewChain 2) (buffer test_corpus))"
  have "\<not> isl (Build (NewChain 2) (buffer test_corpus))" by code_simp
  then have e: "Build (NewChain 2) (buffer test_corpus) = Inr ?c" by simp
  have "length (tokens (tokensIdx ?c)) = 12" by code_simp
  then have l: "length (tokens (tokensIdx ?c)) \<le> 2 ^ 32" by simp
  note i = \<open>\<not> isl (Build (NewChain 2) (buffer test_corpus))\<close>
  have f: "count_list (followers ''brown fox,'' (windows 2 (corpus_lines test_corpus))) ''jumps'' = 1"
    by code_simp
  have k: "lookup (chain ?c) ''brown fox,'' = [6, 5]" by code_simp
  from chain_counts_followers [OF e l, of "''brown fox,''" "''jumps''"] f k i
  show ?thesis by simp
qed

lemma digits_inj:
  assumes "a < 16 ^ w" and "b < 16 ^ w" and "digits w a = digits w b"
  shows "a = b"
proof (rule ccontr)
  assume "a \<noteq> b"
  then consider "a < b" | "b < a" by linarith
  then show False
  proof cases
    case 1
    then have "digits w a < digits w b" using assms(2) by (rule digits_less)
    with assms(3) show False by simp
  next
    case 2
    then have "digits w b < digits w a" using assms(1) by (rule digits_less)
    with assms(3) show False by simp
  qed
qed

lemma distinct_shuffled_line:
  assumes "3 \<le> n" and "n \<le> 16 ^ 9"
  shows "distinct (shuffled_line n)"
proof -
  have "inj_on (digits 9) (set (shuffled_numbers n))"
  proof (rule inj_onI)
    fix a b assume "a \<in> set (shuffled_numbers n)" "b \<in> set (shuffled_numbers n)"
      and eq: "digits 9 a = digits 9 b"
    with assms have "a < 16 ^ 9" "b < 16 ^ 9" by (simp_all add: set_shuffled_numbers)
    then show "a = b" using eq by (rule digits_inj)
  qed
  with distinct_shuffled_numbers [OF assms(1)] show ?thesis
    by (simp add: shuffled_line_def distinct_map)
qed

lemma Join_take_1: "j < length toks \<Longrightarrow> Join (take (Suc 0) (drop j toks)) sep = toks ! j"
proof -
  assume "j < length toks"
  then have "drop j toks = toks ! j # drop (Suc j) toks" by (rule Cons_nth_drop_Suc [symmetric])
  then show ?thesis by simp
qed

lemma windows_1_single:
  "windows (Suc 0) [toks] = map (\<lambda>j. (toks ! j, toks ! (j + 1))) [0..<length toks - 1]"
proof -
  have "Join (take (Suc 0) (drop j toks)) delim = toks ! j" if "j \<in> set [0..<length toks - 1]" for j
    using that by (intro Join_take_1) auto
  then show ?thesis
    by (simp add: windows_def windows_from_def cong: map_cong)
qed

lemma Add_empty: "Add \<lparr>tokens = []\<rparr> t = \<lparr>tokens = [t]\<rparr>"
  by (simp add: Add_def SearchStrings_def Search_def Search_loop.simps [of _ 0 0])

lemma Find_single: "Find \<lparr>tokens = [t]\<rparr> t = 0"
  using Find_nth [of "\<lparr>tokens = [t]\<rparr>" 0] by simp

lemma shuffled_suffix_numbers:
  assumes "3 \<le> n" and "j < n - 1"
  shows "\<exists>k. shuffled_line n ! (j + 1) = digits 9 k \<and> k < n \<and> k \<noteq> n - 2"
proof -
  let ?xs = "shuffled_numbers n"
  have len: "length ?xs = n" using assms(1) by (simp add: shuffled_numbers_def)
  have tl: "drop 1 ?xs = [0, n - 1] @ [1..<n - 2]" by (simp add: shuffled_numbers_def)
  have "?xs ! (j + 1) = drop 1 ?xs ! j" using assms(2) len by simp
  moreover have "j < length (drop 1 ?xs)" using assms(2) len by simp
  ultimately have "?xs ! (j + 1) \<in> set (drop 1 ?xs)" by (metis nth_mem)
  then have "?xs ! (j + 1) \<in> {0, n - 1} \<union> {1..<n - 2}" unfolding tl by simp
  with assms(1) have "?xs ! (j + 1) < n \<and> ?xs ! (j + 1) \<noteq> n - 2" by auto
  moreover have "shuffled_line n ! (j + 1) = digits 9 (?xs ! (j + 1))"
    unfolding shuffled_line_def using assms(2) len by simp
  ultimately show ?thesis by blast
qed

lemma Build_shuffled_collision:
  assumes n: "n = 2 ^ 32 + 1"
  shows "case Build (NewChain 1) (buffer (shuffled_corpus n)) of
      Inl e \<Rightarrow> False
    | Inr c \<Rightarrow>
        length (tokens (tokensIdx c)) = n \<and>
        0 < count_list (lookup (chain c) (digits 9 0)) (Find (tokensIdx c) (digits 9 0)) \<and>
        count_list (followers (digits 9 0) (windows 1 (corpus_lines (shuffled_corpus n))))
          (digits 9 0) = 0"
proof -
  let ?line = "shuffled_line n" and ?r = "buffer (shuffled_corpus n)"
  have n3: "3 \<le> n" and n16: "n \<le> 16 ^ 9" by (simp_all add: n)
  have len: "length ?line = n" using n3 by (rule length_shuffled_line)
  have ls: "corpus_lines (data ?r) = [?line]" by (simp add: corpus_lines_shuffled_corpus)
  have idx: "foldl Add \<lparr>tokens = []\<rparr> (concat [?line]) = wide_index n"
    using n3 n16 by (simp add: foldl_Add_shuffled_line)
  have W: "windows (Suc 0) [?line] = map (\<lambda>j. (?line ! j, ?line ! (j + 1))) [0..<n - 1]"
    using windows_1_single [of ?line] by (simp add: len)
  have F: "Find (wide_index n) (digits 9 k) = word_of_nat k" if "k < n" for k
    using n16 that by (rule Find_wide_index)
  have suffix_found: "Find (wide_index n) t \<noteq> - 1" if "t \<in> snd ` set (windows (Suc 0) [?line])" for t
  proof -
    from that obtain j where j: "j < n - 1" "t = ?line ! (j + 1)" by (auto simp: W)
    from shuffled_suffix_numbers [OF n3 j(1)] obtain k where
      k: "?line ! (j + 1) = digits 9 k" "k < n" "k \<noteq> n - 2" by blast
    have "(word_of_nat k :: int32) \<noteq> - 1"
    proof (cases "k = 2 ^ 32")
      case True
      then show ?thesis by simp
    next
      case False
      with k(2,3) have "k < 2 ^ 32 - 1" by (simp add: n)
      then show ?thesis by (rule int32_of_nat_minus1)
    qed
    with j(2) k(1,2) show ?thesis by (simp add: F)
  qed
  have starts: "line_starts (Suc 0) [?line] = [digits 9 (n - 2)]"
    "starting_prefixes (Suc 0) [?line] = [digits 9 (n - 2)]"
    using n3 Join_take_1 [of 0 ?line delim] shuffled_line_nth(1) [OF n3]
    by (simp_all add: line_starts_def starting_prefixes_def len)
  have "\<exists>c. Build (NewChain 1) ?r = Inr c"
  proof (rule Build_succeeds)
    show "\<not> failure ?r" by simp
    show "0 \<le> prefixLength (NewChain 1)" by simp
    show "\<forall>t \<in> snd ` set (windows (nat (prefixLength (NewChain 1))) (corpus_lines (data ?r))).
        Find (foldl Add (tokensIdx (NewChain 1)) (concat (corpus_lines (data ?r)))) t \<noteq> - 1"
      using suffix_found by (simp only: ls NewChain_simps idx nat_1) blast
    show "\<forall>p \<in> set (line_starts (nat (prefixLength (NewChain 1))) (corpus_lines (data ?r))).
        Find (foldl Add (startingPrefixIdx (NewChain 1))
          (starting_prefixes (nat (prefixLength (NewChain 1))) (corpus_lines (data ?r)))) p \<noteq> - 1"
      by (simp add: corpus_lines_shuffled_corpus starts Add_empty Find_single)
  qed
  then obtain c where c: "Build (NewChain 1) ?r = Inr c" ..
  note b = Build_Inr [OF c]
  have tok: "tokensIdx c = wide_index n" using b(3) by (simp only: ls NewChain_simps idx)
  have lk: "lookup (chain c) (digits 9 0) =
      map (Find (wide_index n)) (followers (digits 9 0) (windows (Suc 0) [?line]))"
    using b(7) [of "digits 9 0"] by (simp add: corpus_lines_shuffled_corpus tok)
  have "(?line ! 1, ?line ! (1 + 1)) \<in> set (windows (Suc 0) [?line])"
    unfolding W using n3 by (intro image_eqI [where x = 1] | simp)+
  then have "(digits 9 0, digits 9 (n - 1)) \<in> set (windows (Suc 0) [?line])"
    using shuffled_line_nth [OF n3] by (simp add: numeral_2_eq_2)
  then have "digits 9 (n - 1) \<in> set (followers (digits 9 0) (windows (Suc 0) [?line]))"
    by (force simp: followers_def)
  then have "Find (wide_index n) (digits 9 (n - 1)) \<in> set (lookup (chain c) (digits 9 0))"
    by (simp add: lk)
  moreover have "Find (wide_index n) (digits 9 (n - 1)) = Find (wide_index n) (digits 9 0)"
  proof -
    have "Find (wide_index n) (digits 9 (n - 1)) = word_of_nat (n - 1)"
      using n3 by (intro F) simp
    moreover have "Find (wide_index n) (digits 9 0) = word_of_nat 0"
      using n3 by (intro F) simp
    moreover have "(word_of_nat (n - 1) :: int32) = word_of_nat 0" by (simp add: n)
    ultimately show ?thesis by simp
  qed
  ultimately have "Find (tokensIdx c) (digits 9 0) \<in> set (lookup (chain c) (digits 9 0))"
    by (simp add: tok)
  then have "count_list (lookup (chain c) (digits 9 0)) (Find (tokensIdx c) (digits 9 0)) \<noteq> 0"
    by (simp only: count_list_0_iff not_not)
  then have pos: "0 < count_list (lookup (chain c) (digits 9 0)) (Find (tokensIdx c) (digits 9 0))"
    by simp
  have d: "distinct ?line" using n3 n16 by (rule distinct_shuffled_line)
  have "digits 9 0 \<notin> set (followers (digits 9 0) (windows (Suc 0) [?line]))"
  proof
    assume "digits 9 0 \<in> set (followers (digits 9 0) (windows (Suc 0) [?line]))"
    then obtain j where j: "j < n - 1" "?line ! j = digits 9 0" "?line ! (j + 1) = digits 9 0"
      by (auto simp: followers_def W)
    then have "?line ! j = ?line ! (j + 1)" by simp
    with d j(1) len have "j = j + 1" by (simp add: nth_eq_iff_index_eq)
    then show False by simp
  qed
  then have zero: "count_list (followers (digits 9 0) (windows (Suc 0) [?line])) (digits 9 0) = 0"
    by (simp add: count_list_0_iff)
  have "length (tokens (tokensIdx c)) = n" by (simp add: tok wide_index_def)
  with pos zero c show ?thesis by (simp add: corpus_lines_shuffled_corpus)
qed

text \<open>
  Claim C6 as stated fails on the one-line corpus of \<open>2^32 + 1\<close> distinct tokens
  with prefix length 1: \<open>Build\<close> succeeds; the token at position \<open>2^32\<close> follows
  the token at position 0 once, and its position converts to the \<open>int32\<close> value 0,
  so the position of the token \<open>digits 9 0\<close> occurs in the chain entry of that token
  although no window has it follow itself.
\<close>

theorem chain_counts_followers_counterexample:
  "\<not> isl (Build (NewChain 1) (buffer (shuffled_corpus (2 ^ 32 + 1)))) \<and>
   length (tokens (tokensIdx (projr (Build (NewChain 1) (buffer (shuffled_corpus (2 ^ 32 + 1)))))))
     = 2 ^ 32 + 1 \<and>
   0 < count_list
     (lookup (chain (projr (Build (NewChain 1) (buffer (shuffled_corpus (2 ^ 32 + 1))))))
        (digits 9 0))
     (Find (tokensIdx (projr (Build (NewChain 1) (buffer (shuffled_corpus (2 ^ 32 + 1))))))
        (digits 9 0)) \<and>
   count_list (followers (digits 9 0) (windows 1 (corpus_lines (shuffled_corpus (2 ^ 32 + 1)))))
     (digits 9 0) = 0"
proof -
  have "case Build (NewChain 1) (buffer (shuffled_corpus (2 ^ 32 + 1))) of
      Inl e \<Rightarrow> False
    | Inr c \<Rightarrow>
        length (tokens (tokensIdx c)) = 2 ^ 32 + 1 \<and>
        0 < count_list (lookup (chain c) (digits 9 0)) (Find (tokensIdx c) (digits 9 0)) \<and>
        count_list (followers (digits 9 0) (windows 1 (corpus_lines (shuffled_corpus (2 ^ 32 + 1)))))
          (digits 9 0) = 0"
    by (rule Build_shuffled_collision) simp
  then show ?thesis
    by (cases "Build (NewChain 1) (buffer (shuffled_corpus (2 ^ 32 + 1)))") simp_all
qed

subsection \<open>Generate\<close>

declare Generate_loop.simps [simp del]

lemma Get_Inr: "Get idx i = Inr t \<Longrightarrow> t \<in> set (tokens idx)"
  by (auto simp: Get_def split: if_splits)

lemma Get_Inl: "Get idx i = Inl e \<Longrightarrow> e = Panic IndexOutOfRange"
  by (auto simp: Get_def split: if_splits)

lemma Intn_Inl: "Intn rng k n = Inl e \<Longrightarrow> e = Panic IntnInvalidArgument"
  by (auto simp: Intn_def split: if_splits)

lemma Intn_Inr: "Intn rng k n = Inr i \<Longrightarrow> i < n"
  by (auto simp: Intn_def split: if_splits)

lemma Generate_loop_cases:
  assumes "Generate_loop c rng k sentence m = res"
  obtains (stop) "res = Inr (Join sentence delim)"
  | (panic) p where "res = Inl (Panic p)"
  | (step) suffix where "int (length sentence) < m" "suffix \<in> set (tokens (tokensIdx c))"
      "res = Generate_loop c rng (k + 1) (sentence @ [suffix]) m"
proof (cases "int (length sentence) < m")
  case False
  with assms have "res = Inr (Join sentence delim)"
    by (subst (asm) Generate_loop.simps) simp
  then show ?thesis by (rule stop)
next
  case True
  let ?prefix = "drop (length sentence - nat (prefixLength c)) sentence"
  let ?suffixesI = "lookup (chain c) (Join ?prefix delim)"
  show ?thesis
  proof (cases "prefixLength c < 0 \<or> int (length sentence) < prefixLength c")
    case True
    with \<open>int (length sentence) < m\<close> assms have "res = Inl (Panic SliceBoundsOutOfRange)"
      by (subst (asm) Generate_loop.simps) auto
    then show ?thesis by (rule panic)
  next
    case ok: False
    show ?thesis
    proof (cases "length ?suffixesI = 0")
      case True
      with ok \<open>int (length sentence) < m\<close> assms have "res = Inr (Join sentence delim)"
        by (subst (asm) Generate_loop.simps) (simp add: Let_def)
      then show ?thesis by (rule stop)
    next
      case False
      with ok \<open>int (length sentence) < m\<close> assms
      have r: "res = (case Intn rng k (length ?suffixesI) of
                    Inl e \<Rightarrow> Inl e
                  | Inr i \<Rightarrow>
                      (case Get (tokensIdx c) (sint (?suffixesI ! i)) of
                         Inl e \<Rightarrow> Inl e
                       | Inr suffix \<Rightarrow> Generate_loop c rng (k + 1) (sentence @ [suffix]) m))"
        by (subst (asm) Generate_loop.simps) (simp add: Let_def)
      show ?thesis
      proof (cases "Intn rng k (length ?suffixesI)")
        case (Inl e)
        with r Intn_Inl [OF Inl] show ?thesis by (auto intro: panic)
      next
        case (Inr i)
        show ?thesis
        proof (cases "Get (tokensIdx c) (sint (?suffixesI ! i))")
          case (Inl e)
          with r Inr Get_Inl [OF Inl] show ?thesis by (auto intro: panic)
        next
          case get: (Inr suffix)
          with r Inr have "res = Generate_loop c rng (k + 1) (sentence @ [suffix]) m" by simp
          with \<open>int (length sentence) < m\<close> Get_Inr [OF get] show ?thesis by (rule step)
        qed
      qed
    qed
  qed
qed

lemma Generate_loop_Inr:
  "Generate_loop c rng k sentence m = Inr s \<Longrightarrow>
   \<exists>sent. s = Join sent delim \<and> length sentence \<le> length sent \<and>
     int (length sent) \<le> max (int (length sentence)) m \<and>
     set sent \<subseteq> set sentence \<union> set (tokens (tokensIdx c))"
proof (induction "nat (m - int (length sentence))" arbitrary: sentence k)
  case 0
  from "0.prems" show ?case
  proof (cases rule: Generate_loop_cases)
    case stop
    then show ?thesis by (intro exI [of _ sentence]) simp
  next
    case (panic p)
    then show ?thesis by simp
  next
    case (step suffix)
    with "0.hyps" show ?thesis by simp
  qed
next
  case (Suc x)
  from Suc.prems show ?case
  proof (cases rule: Generate_loop_cases)
    case stop
    then show ?thesis by (intro exI [of _ sentence]) simp
  next
    case (panic p)
    then show ?thesis by simp
  next
    case (step suffix)
    from Suc.hyps(2) have "x = nat (m - int (length (sentence @ [suffix])))" by simp
    from Suc.hyps(1) [OF this step(3) [symmetric]]
    obtain sent where sent: "s = Join sent delim" "length (sentence @ [suffix]) \<le> length sent"
      "int (length sent) \<le> max (int (length (sentence @ [suffix]))) m"
      "set sent \<subseteq> set (sentence @ [suffix]) \<union> set (tokens (tokensIdx c))"
      by blast
    from sent(2) have "length sentence \<le> length sent" by simp
    moreover from sent(3) step(1) have "int (length sent) \<le> max (int (length sentence)) m"
      by simp
    moreover from sent(4) step(2) have "set sent \<subseteq> set sentence \<union> set (tokens (tokensIdx c))"
      by auto
    ultimately show ?thesis using sent(1) by blast
  qed
qed


lemma Generate_Inr:
  assumes "Generate c rng m = Inr s"
  obtains prefix sent where "prefix \<in> set (tokens (startingPrefixIdx c))"
    "prefixLength c \<le> int (length (Split prefix delim))"
    "s = Join sent delim" "length (Split prefix delim) \<le> length sent"
    "int (length sent) \<le> max (int (length (Split prefix delim))) m"
    "set sent \<subseteq> set (Split prefix delim) \<union> set (tokens (tokensIdx c))"
proof -
  from assms obtain i prefix where
    get: "Get (startingPrefixIdx c) (sint (sp c ! i)) = Inr prefix"
    and len: "\<not> int (length (Split prefix delim)) < prefixLength c"
    and loop: "Generate_loop c rng 1 (Split prefix delim) m = Inr s"
    by (auto simp: Generate_def Let_def split: sum.splits if_splits)
  from Generate_loop_Inr [OF loop] obtain sent where
    "s = Join sent delim" "length (Split prefix delim) \<le> length sent"
    "int (length sent) \<le> max (int (length (Split prefix delim))) m"
    "set sent \<subseteq> set (Split prefix delim) \<union> set (tokens (tokensIdx c))"
    by blast
  with Get_Inr [OF get] len that show thesis by simp
qed


lemma corpus_lines_no_delim:
  "toks \<in> set (corpus_lines bs) \<Longrightarrow> t \<in> set toks \<Longrightarrow> delim \<notin> set t"
  by (auto simp: corpus_lines_def tokenize_def dest: Split_no_sep_in_pieces)

lemma built_tokens:
  assumes "Build (NewChain l) r = Inr c"
  shows "sorted_wrt (<) (tokens (tokensIdx c))"
    and "set (tokens (tokensIdx c)) = set (concat (corpus_lines (data r)))"
    and "sorted_wrt (<) (tokens (startingPrefixIdx c))"
    and "set (tokens (startingPrefixIdx c)) = set (starting_prefixes (nat l) (corpus_lines (data r)))"
    and "0 \<le> l" and "prefixLength c = l"
proof -
  note b = Build_Inr [OF assms]
  from b(3) have t: "tokensIdx c = foldl Add \<lparr>tokens = []\<rparr> (concat (corpus_lines (data r)))"
    by simp
  from b(4) have p: "startingPrefixIdx c =
      foldl Add \<lparr>tokens = []\<rparr> (starting_prefixes (nat l) (corpus_lines (data r)))"
    by simp
  show "sorted_wrt (<) (tokens (tokensIdx c))" unfolding t by (rule sorted_foldl_Add) simp
  show "set (tokens (tokensIdx c)) = set (concat (corpus_lines (data r)))"
    unfolding t by (simp add: set_foldl_Add)
  show "sorted_wrt (<) (tokens (startingPrefixIdx c))" unfolding p by (rule sorted_foldl_Add) simp
  show "set (tokens (startingPrefixIdx c)) = set (starting_prefixes (nat l) (corpus_lines (data r)))"
    unfolding p by (simp add: set_foldl_Add)
  from b(2) show "0 \<le> l" by simp
  from b(5) show "prefixLength c = l" by simp
qed

lemma built_tokens_no_delim:
  assumes "Build (NewChain l) r = Inr c" and "t \<in> set (tokens (tokensIdx c))"
  shows "delim \<notin> set t"
  using assms(2) corpus_lines_no_delim by (auto simp: built_tokens(2) [OF assms(1)])

lemma built_prefix_Split:
  assumes "Build (NewChain l) r = Inr c" and "1 \<le> l"
    and "p \<in> set (tokens (startingPrefixIdx c))"
  shows "int (length (Split p delim)) = l"
proof -
  from assms(3) obtain toks where toks: "toks \<in> set (corpus_lines (data r))"
    "nat l \<le> length toks" "p = Join (take (nat l) toks) delim"
    by (auto simp: built_tokens(4) [OF assms(1)] starting_prefixes_def)
  have "take (nat l) toks \<noteq> []" using assms(2) toks(2) by auto
  moreover have "\<forall>t \<in> set (take (nat l) toks). delim \<notin> set t"
    using toks(1) corpus_lines_no_delim by (blast dest: in_set_takeD)
  ultimately have "Split p delim = take (nat l) toks"
    unfolding toks(3) by (rule Split_Join)
  with toks(2) assms(2) show ?thesis by simp
qed

lemma starting_prefix_Split:
  assumes "toks \<in> set (corpus_lines bs)" and "1 \<le> l" and "nat l \<le> length toks"
  shows "int (length (Split (Join (take (nat l) toks) delim) delim)) = l"
proof -
  have "take (nat l) toks \<noteq> []" using assms(2,3) by auto
  moreover have "\<forall>t \<in> set (take (nat l) toks). delim \<notin> set t"
    using assms(1) corpus_lines_no_delim by (blast dest: in_set_takeD)
  ultimately have "Split (Join (take (nat l) toks) delim) delim = take (nat l) toks"
    by (rule Split_Join)
  with assms(2,3) show ?thesis by simp
qed

lemma built_invariant:
  assumes "built c"
  shows "(\<forall>t \<in> set (tokens (tokensIdx c)). delim \<notin> set t) \<and>
    (1 \<le> prefixLength c \<longrightarrow>
       (\<forall>p \<in> set (tokens (startingPrefixIdx c)). int (length (Split p delim)) = prefixLength c))"
  using assms
proof (induction rule: built.induct)
  case (new l)
  show ?case by simp
next
  case (again c r c')
  let ?ls = "corpus_lines (data r)"
  note b = Build_Inr [OF again.hyps(2)]
  have t: "set (tokens (tokensIdx c')) = set (tokens (tokensIdx c)) \<union> set (concat ?ls)"
    by (simp add: b(3) set_foldl_Add)
  have p: "set (tokens (startingPrefixIdx c')) =
      set (tokens (startingPrefixIdx c)) \<union> set (starting_prefixes (nat (prefixLength c)) ?ls)"
    by (simp add: b(4) set_foldl_Add)
  have a1: "\<forall>t \<in> set (tokens (tokensIdx c')). delim \<notin> set t"
    using again.IH corpus_lines_no_delim by (auto simp: t)
  have a2: "int (length (Split q delim)) = prefixLength c'"
    if l: "1 \<le> prefixLength c'" and q: "q \<in> set (tokens (startingPrefixIdx c'))" for q
  proof -
    from l have l': "1 \<le> prefixLength c" by (simp add: b(5))
    from q p consider "q \<in> set (tokens (startingPrefixIdx c))"
      | "q \<in> set (starting_prefixes (nat (prefixLength c)) ?ls)" by blast
    then show ?thesis
    proof cases
      case 1
      with again.IH l' show ?thesis by (simp add: b(5))
    next
      case 2
      then obtain toks where toks: "toks \<in> set ?ls" "nat (prefixLength c) \<le> length toks"
        "q = Join (take (nat (prefixLength c)) toks) delim"
        by (auto simp: starting_prefixes_def)
      from starting_prefix_Split [OF toks(1) l' toks(2)] toks(3) show ?thesis
        by (simp add: b(5))
    qed
  qed
  from a1 a2 show ?case by blast
qed



lemma Generate_loop_returns:
  assumes "0 \<le> prefixLength c"
    and "\<forall>key. \<forall>e \<in> set (lookup (chain c) key).
           0 \<le> sint e \<and> sint e < int (length (tokens (tokensIdx c)))"
  shows "prefixLength c \<le> int (length sentence) \<Longrightarrow>
         \<exists>s. Generate_loop c rng k sentence m = Inr s"
proof (induction "nat (m - int (length sentence))" arbitrary: sentence k)
  case 0
  then have "\<not> int (length sentence) < m" by simp
  then show ?case by (subst Generate_loop.simps) simp
next
  case (Suc x)
  let ?suffixesI = "lookup (chain c)
      (Join (drop (length sentence - nat (prefixLength c)) sentence) delim)"
  from Suc.hyps(2) have lt: "int (length sentence) < m" by simp
  from assms(1) Suc.prems have ok: "\<not> (prefixLength c < 0 \<or> int (length sentence) < prefixLength c)"
    by simp
  show ?case
  proof (cases "length ?suffixesI = 0")
    case True
    with lt ok show ?thesis by (subst Generate_loop.simps) (simp add: Let_def)
  next
    case False
    let ?i = "rng k mod length ?suffixesI"
    from False have i: "Intn rng k (length ?suffixesI) = Inr ?i" "?i < length ?suffixesI"
      by (simp_all add: Intn_def)
    then have "?suffixesI ! ?i \<in> set ?suffixesI" by simp
    with assms(2) have "0 \<le> sint (?suffixesI ! ?i)"
      "sint (?suffixesI ! ?i) < int (length (tokens (tokensIdx c)))" by blast+
    then obtain suffix where get: "Get (tokensIdx c) (sint (?suffixesI ! ?i)) = Inr suffix"
      by (simp add: Get_def)
    have "\<exists>s. Generate_loop c rng (k + 1) (sentence @ [suffix]) m = Inr s"
      using Suc.hyps(2) Suc.prems by (intro Suc.hyps(1)) simp_all
    with lt ok False i(1) get show ?thesis
      by (subst Generate_loop.simps) (simp add: Let_def)
  qed
qed

lemma sint_Find_member:
  assumes "sorted_wrt (<) (tokens idx)" and "t \<in> set (tokens idx)"
    and "length (tokens idx) \<le> 2 ^ 31"
  shows "0 \<le> sint (Find idx t)" and "sint (Find idx t) < int (length (tokens idx))"
    and "Get idx (sint (Find idx t)) = Inr t"
proof -
  from assms(1,2) obtain p where p: "p < length (tokens idx)" "tokens idx ! p = t"
    by (rule Find_member)
  with assms(3) have "p < 2 ^ 31" by simp
  with assms(1) p(1) have "sint (Find idx (tokens idx ! p)) = int p" by (rule sint_Find_nth)
  with p show "0 \<le> sint (Find idx t)" "sint (Find idx t) < int (length (tokens idx))"
    "Get idx (sint (Find idx t)) = Inr t"
    by (simp_all add: Get_def)
qed

lemma Generate_returns:
  assumes "Build (NewChain l) r = Inr c" and "sp c \<noteq> []"
    and "length (tokens (tokensIdx c)) \<le> 2 ^ 31"
    and "length (tokens (startingPrefixIdx c)) \<le> 2 ^ 31"
  shows "\<exists>s. Generate c rng m = Inr s"
proof -
  let ?ls = "corpus_lines (data r)"
  note b = Build_Inr [OF assms(1)] and t = built_tokens [OF assms(1)]
  let ?i = "rng 0 mod length (sp c)"
  from assms(2) have i: "Intn rng 0 (length (sp c)) = Inr ?i" "?i < length (sp c)"
    by (simp_all add: Intn_def)
  from b(6) have sp: "sp c = map (Find (startingPrefixIdx c)) (line_starts (nat l) ?ls)" by simp
  with i(2) obtain p where p: "p \<in> set (line_starts (nat l) ?ls)"
    "sp c ! ?i = Find (startingPrefixIdx c) p"
    by (metis length_map nth_map nth_mem)
  from p(1) line_starts_subset have pm: "p \<in> set (tokens (startingPrefixIdx c))"
    by (auto simp: t(4))
  from sint_Find_member(3) [OF t(3) pm assms(4)] p(2)
  have get: "Get (startingPrefixIdx c) (sint (sp c ! ?i)) = Inr p" by simp
  have len: "prefixLength c \<le> int (length (Split p delim))"
  proof (cases "1 \<le> l")
    case True
    with assms(1) have "int (length (Split p delim)) = l" using pm by (rule built_prefix_Split)
    then show ?thesis by (simp add: t(6))
  next
    case False
    with t(5) have "l = 0" by simp
    then show ?thesis by (simp add: t(6))
  qed
  have valid: "\<forall>key. \<forall>e \<in> set (lookup (chain c) key).
      0 \<le> sint e \<and> sint e < int (length (tokens (tokensIdx c)))"
  proof (intro allI ballI)
    fix key e assume "e \<in> set (lookup (chain c) key)"
    with b(7) [of key] obtain x where x: "x \<in> set (followers key (windows (nat l) ?ls))"
      "e = Find (tokensIdx c) x" by auto
    from x(1) followers_subset windows_tokens have "x \<in> set (concat ?ls)" by blast
    then have "x \<in> set (tokens (tokensIdx c))" by (simp only: t(2))
    from sint_Find_member(1,2) [OF t(1) this assms(3)] x(2)
    show "0 \<le> sint e \<and> sint e < int (length (tokens (tokensIdx c)))" by simp
  qed
  have "0 \<le> prefixLength c" using t(5,6) by simp
  from Generate_loop_returns [OF this valid len]
  obtain s where "Generate_loop c rng 1 (Split p delim) m = Inr s" by blast
  with i(1) get len show ?thesis by (simp add: Generate_def)
qed

text \<open>
  Where the maximum is at least the prefix length, a returned phrase has between
  \<open>prefixLength\<close> and \<open>m\<close> tokens; below, only the lower bound holds.
\<close>

lemma Generate_length_within:
  assumes "built c" and "1 \<le> prefixLength c" and "Generate c rng m = Inr s"
  shows "prefixLength c \<le> int (length (Split s delim))"
    and "prefixLength c \<le> m \<Longrightarrow> int (length (Split s delim)) \<le> m"
proof -
  from built_invariant [OF assms(1)] assms(2)
  have a: "\<forall>t \<in> set (tokens (tokensIdx c)). delim \<notin> set t"
    and b: "\<forall>p \<in> set (tokens (startingPrefixIdx c)). int (length (Split p delim)) = prefixLength c"
    by blast+
  from assms(3) obtain prefix sent where g: "prefix \<in> set (tokens (startingPrefixIdx c))"
    "s = Join sent delim" "length (Split prefix delim) \<le> length sent"
    "int (length sent) \<le> max (int (length (Split prefix delim))) m"
    "set sent \<subseteq> set (Split prefix delim) \<union> set (tokens (tokensIdx c))"
    by (rule Generate_Inr)
  from b g(1) have len: "int (length (Split prefix delim)) = prefixLength c" by blast
  have "sent \<noteq> []" using g(3) len assms(2) by auto
  moreover have "\<forall>t \<in> set sent. delim \<notin> set t"
    using g(5) a Split_no_sep_in_pieces by blast
  ultimately have "Split (Join sent delim) delim = sent" by (rule Split_Join)
  with g(2) have e: "length (Split s delim) = length sent" by simp
  with g(3) len show "prefixLength c \<le> int (length (Split s delim))" by simp
  from e g(4) len show "int (length (Split s delim)) \<le> m" if "prefixLength c \<le> m"
    using that by simp
qed

text \<open>
  Claim C3 at the chain of \<open>Test_BuildChain\<close> (prefix length 2, \<open>sp\<close> not
  empty): \<open>Generate(1)\<close> returns the starting prefix \<open>the quick\<close>, a phrase of
  two tokens, more than the maximum of 1.
\<close>

theorem Generate_exceeds_maximum:
  "\<not> isl (Build (NewChain 2) (buffer test_corpus)) \<and>
   prefixLength (projr (Build (NewChain 2) (buffer test_corpus))) = 2 \<and>
   sp (projr (Build (NewChain 2) (buffer test_corpus))) = [1, 0, 0] \<and>
   Generate (projr (Build (NewChain 2) (buffer test_corpus))) first_draws 1 = Inr ''the quick'' \<and>
   length (Split ''the quick'' delim) = 2"
  by code_simp

end
